theory Spec2Isabelle
  imports Main "HOL-Library.Word" "HOL-Library.AList" "HOL-Library.Code_Target_Numeral"
begin

unbundle bit_operations_syntax

section \<open>Red Archive: a shallow embedding of \<^verbatim>\<open>src/archive.c\<close>\<close>

text \<open>
  The archive is a sequence of entries: a zero-terminated 8.3 filename, two little-endian
  32-bit sizes, a one-byte compression level and the payload. A single zero byte ends it.
  \<^verbatim>\<open>unpack\<close> reads the entries one after the other and decodes each payload with the
  codec its level selects; \<^verbatim>\<open>pack\<close> writes every file of a folder as a level-0 entry.

  Conventions of the embedding:
  \<^item> a C \<^verbatim>\<open>char\<close> is an 8-bit word read with \<open>sint\<close>: \<^verbatim>\<open>char\<close> is signed on the x86
    and x86-64 ABIs of Windows, Linux and macOS, the platforms the code builds for (it tests
    \<^verbatim>\<open>_WIN32\<close>); \<^verbatim>\<open>unsigned char\<close> is read with \<open>unat\<close>;
  \<^item> a buffer obtained from \<^verbatim>\<open>malloc\<close> is a list of cells, \<open>None\<close> for a byte that has
    not been written since the allocation (its value is indeterminate);
  \<^item> an access outside a buffer, a read of a freed string and a second \<^verbatim>\<open>free\<close> of a
    pointer are undefined behaviour in C: the model stops there with the fault
    \<open>OutOfBounds\<close>, \<open>UseAfterFree\<close> or \<open>DoubleFree\<close> (the C library ends the program at the
    second \<^verbatim>\<open>free\<close>);
  \<^item> a \<^verbatim>\<open>while\<close> loop is a \<open>partial_function\<close> in the option monad: \<open>None\<close> stands for
    a loop that does not return;
  \<^item> the archive file is a list of bytes and a stream position; \<^verbatim>\<open>fread\<close> returns what is
    left of the file, and no element when the element size is 0; an \<^verbatim>\<open>unsigned int\<close> has
    32 bits and is stored with its lowest byte first; \<^verbatim>\<open>fseek\<close> to a position inside the
    file succeeds, \<^verbatim>\<open>malloc\<close> succeeds, \<^verbatim>\<open>fwrite\<close> writes what it is given and returns
    no element when the element size is 0; whether an output file can be opened is a
    parameter;
  \<^item> everything printed to \<^verbatim>\<open>stdout\<close> or \<^verbatim>\<open>stderr\<close> is appended to a log.
\<close>

type_synonym byte = "8 word"
type_synonym cell = "byte option"

datatype fault = OutOfBounds | UseAfterFree | DoubleFree

definition FILENAME_SIZE :: nat where
  "FILENAME_SIZE = 13"

definition EXIT_FAILURE :: int where
  "EXIT_FAILURE = 1"

subsection \<open>Filename validator\<close>

definition valid_filename_character :: "byte \<Rightarrow> bool" where
  "valid_filename_character character =
     ((sint character \<ge> 36 \<and> sint character \<le> 41) \<or>
      (sint character \<ge> 48 \<and> sint character \<le> 57) \<or>
      (sint character \<ge> 64 \<and> sint character \<le> 90) \<or>
      (sint character \<ge> 94 \<and> sint character \<le> 123) \<or>
      sint character = 33 \<or>
      sint character = 45 \<or>
      sint character = 46 \<or>
      sint character = 125 \<or>
      sint character = 126)"

text \<open>
  The loop \<^verbatim>\<open>for (int i = 0; i < filename_read; i++)\<close> of \<^verbatim>\<open>unpack\<close> over the bytes read
  into \<^verbatim>\<open>filename_buffer\<close>, from index \<open>i\<close> on: \<open>True\<close> when it leaves by \<^verbatim>\<open>break\<close>
  or runs to its end, \<open>False\<close> when it reaches the \<^verbatim>\<open>return EXIT_FAILURE\<close>.
  In \<^verbatim>\<open>i > 0 & filename_buffer[i] == 0\<close> the operator \<^verbatim>\<open>&\<close> binds weaker than both
  comparisons.
\<close>

fun filename_loop :: "nat \<Rightarrow> nat \<Rightarrow> byte list \<Rightarrow> bool" where
  "filename_loop filename_last_i i [] = True"
| "filename_loop filename_last_i i (b # bs) =
     (if i > 0 \<and> b = 0 then True
      else if \<not> valid_filename_character b \<or> (i = filename_last_i \<and> b \<noteq> 0) then False
      else filename_loop filename_last_i (Suc i) bs)"

definition strlen :: "byte list \<Rightarrow> nat" where
  "strlen s = length (takeWhile (\<lambda>b. b \<noteq> 0) s)"

definition c_string :: "byte list \<Rightarrow> byte list" where
  "c_string s = takeWhile (\<lambda>b. b \<noteq> 0) s"

subsection \<open>Reading the archive stream\<close>

definition fread :: "byte list \<Rightarrow> nat \<Rightarrow> nat \<Rightarrow> byte list" where
  "fread archive position n = take n (drop position archive)"

text \<open>\<^verbatim>\<open>fread(&x, 4, 1, f)\<close> into an \<^verbatim>\<open>unsigned int\<close>, little-endian; \<open>None\<close> when it
  does not return 1.\<close>

definition read_u32 :: "byte list \<Rightarrow> nat \<Rightarrow> nat option" where
  "read_u32 archive position =
     (case fread archive position 4 of
        [b0, b1, b2, b3] \<Rightarrow>
          Some (unat b0 + 256 * unat b1 + 65536 * unat b2 + 16777216 * unat b3)
      | _ \<Rightarrow> None)"

definition read_char :: "byte list \<Rightarrow> nat \<Rightarrow> byte option" where
  "read_char archive position =
     (case fread archive position 1 of [b] \<Rightarrow> Some b | _ \<Rightarrow> None)"

text \<open>\<^verbatim>\<open>fread(compressed_data, compressed_size, 1, f)\<close>: it returns 1 when one element of
  \<^verbatim>\<open>compressed_size\<close> bytes was read, and 0 when the file is too short or when the
  element size is zero.\<close>

definition read_data :: "byte list \<Rightarrow> nat \<Rightarrow> nat \<Rightarrow> byte list option" where
  "read_data archive position compressed_size =
     (if compressed_size = 0 \<or> length archive < position + compressed_size then None
      else Some (fread archive position compressed_size))"

subsection \<open>RLE codec (level 1)\<close>

text \<open>The two \<^verbatim>\<open>for\<close> loops of the level-1 branch, by the number of iterations left.
  The cursors are \<^verbatim>\<open>unsigned int\<close>; they stay below the buffer sizes, which are below
  \<open>2 ^ 32\<close>, up to the first fault, so they do not wrap.\<close>

fun rle_duplicate ::
  "byte list \<Rightarrow> nat \<Rightarrow> nat \<Rightarrow> nat \<Rightarrow> cell list \<Rightarrow> fault + (nat \<times> cell list)" where
  "rle_duplicate cd cp 0 up ud = Inr (up, ud)"
| "rle_duplicate cd cp (Suc n) up ud =
     (if cp < length cd \<and> up < length ud
      then rle_duplicate cd cp n (Suc up) (ud[up := Some (cd ! cp)])
      else Inl OutOfBounds)"

fun rle_copy ::
  "byte list \<Rightarrow> nat \<Rightarrow> nat \<Rightarrow> nat \<Rightarrow> cell list \<Rightarrow> fault + (nat \<times> nat \<times> cell list)" where
  "rle_copy cd 0 cp up ud = Inr (cp, up, ud)"
| "rle_copy cd (Suc n) cp up ud =
     (if cp < length cd \<and> up < length ud
      then rle_copy cd n (Suc cp) (Suc up) (ud[up := Some (cd ! cp)])
      else Inl OutOfBounds)"

text \<open>One iteration of \<^verbatim>\<open>while (compressed_pointer < compressed_size)\<close>, entered with
  \<open>cp < length cd\<close>.\<close>

definition rle_group ::
  "byte list \<Rightarrow> nat \<Rightarrow> nat \<Rightarrow> cell list \<Rightarrow> fault + (nat \<times> nat \<times> cell list)" where
  "rle_group cd cp up ud =
     (let flag = cd ! cp; cp1 = cp + 1 in
      if unat flag > 127 then
        (let count = flag - 125 in
         case rle_duplicate cd cp1 (unat count) up ud of
           Inl e \<Rightarrow> Inl e
         | Inr (up', ud') \<Rightarrow> Inr (cp1 + 1, up', ud'))
      else rle_copy cd (unat flag + 1) cp1 up ud)"

partial_function (option) rle_loop ::
  "byte list \<Rightarrow> nat \<Rightarrow> nat \<Rightarrow> cell list \<Rightarrow> (fault + (nat \<times> nat \<times> cell list)) option" where
  "rle_loop cd cp up ud =
     (if cp < length cd then
        (case rle_group cd cp up ud of
           Inl e \<Rightarrow> Some (Inl e)
         | Inr (cp', up', ud') \<Rightarrow> rle_loop cd cp' up' ud')
      else Some (Inr (cp, up, ud)))"

text \<open>The level-1 decoder: the payload and \<^verbatim>\<open>uncompressed_size\<close> to the final cursors
  and the output buffer.\<close>

definition rle_decode ::
  "byte list \<Rightarrow> nat \<Rightarrow> (fault + (nat \<times> nat \<times> cell list)) option" where
  "rle_decode cd uncompressed_size = rle_loop cd 0 0 (replicate uncompressed_size None)"

declare rle_loop.simps [code]

subsection \<open>The cursor of the RLE loop on the machine\<close>

text \<open>\<^verbatim>\<open>compressed_pointer\<close> is an \<^verbatim>\<open>unsigned int\<close> of 32 bits: it wraps. Nothing in the
  level-1 loop stops it at an access outside a buffer, so on the machine the loop goes on
  with what the memory behind the payload holds: \<open>mem i\<close> is the byte that
  \<^verbatim>\<open>compressed_data[i]\<close> reads, a byte of the payload for \<open>i\<close> below \<^verbatim>\<open>compressed_size\<close>.
  The cursor after an iteration of \<^verbatim>\<open>while (compressed_pointer < compressed_size)\<close>
  depends on the flag byte alone: 2 more after a duplication, 1 more for the flag and for
  each of the \<^verbatim>\<open>flag + 1\<close> bytes copied.\<close>

definition rle_cursor_group :: "(nat \<Rightarrow> byte) \<Rightarrow> 32 word \<Rightarrow> 32 word" where
  "rle_cursor_group mem cp =
     (let flag = mem (unat cp); cp1 = cp + 1 in
      if unat flag > 127 then cp1 + 1 else cp1 + word_of_nat (unat flag + 1))"

partial_function (option) rle_cursor_loop ::
  "(nat \<Rightarrow> byte) \<Rightarrow> 32 word \<Rightarrow> 32 word \<Rightarrow> 32 word option" where
  "rle_cursor_loop mem compressed_size cp =
     (if cp < compressed_size
      then rle_cursor_loop mem compressed_size (rle_cursor_group mem cp)
      else Some cp)"

subsection \<open>Window codec (levels above 1)\<close>

text \<open>\<^verbatim>\<open>(c >> i) & 1\<close> for a \<^verbatim>\<open>char c\<close>: it is promoted to \<^verbatim>\<open>int\<close> with its sign and
  shifted arithmetically.\<close>

definition char_bit :: "byte \<Rightarrow> nat \<Rightarrow> bool" where
  "char_bit c i = (drop_bit i (sint c) AND 1 = 1)"

text \<open>The parameters of the codec. \<^verbatim>\<open>offset_bits\<close> and \<^verbatim>\<open>run_length_bits\<close> are
  \<^verbatim>\<open>unsigned char\<close>: the \<^verbatim>\<open>int\<close> difference is reduced modulo 256.\<close>

definition offset_bits :: "byte \<Rightarrow> byte" where
  "offset_bits compression_level = word_of_int (6 - sint compression_level)"

definition run_length_bits :: "byte \<Rightarrow> byte" where
  "run_length_bits ob = word_of_int (8 - uint ob)"

definition max_run_length :: "byte \<Rightarrow> nat" where
  "max_run_length rlb = push_bit (unat rlb) 1 + 2"

definition max_offset :: "byte \<Rightarrow> int" where
  "max_offset ob = push_bit (unat ob + 8) 1 - 1"

record wstate =
  compressed_pointer :: nat
  uncompressed_pointer :: nat
  uncompressed_data :: "cell list"
  sliding_window :: "cell list"
  sliding_offset :: int

text \<open>What a token does to the decode loop: it goes on, or it leaves by
  \<^verbatim>\<open>goto ESCAPE_LOOP\<close> after one of the two warnings.\<close>

datatype escape = invalid_offset | invalid_run_length

datatype flow = Continue | Escape escape

text \<open>The bodies of the two \<^verbatim>\<open>for (unsigned char i = 0; i < 8; i++)\<close> loops that read a
  back-reference: over the first byte with the state \<open>(offset, count)\<close>, over the second
  with \<open>(offset, run_length, count)\<close>.\<close>

definition first_byte_step :: "byte \<Rightarrow> nat \<Rightarrow> int \<times> nat \<Rightarrow> int \<times> nat" where
  "first_byte_step b i = (\<lambda>(offset, count).
     (if char_bit b i then offset + push_bit count 1 else offset, count + 1))"

definition second_byte_step ::
  "nat \<Rightarrow> byte \<Rightarrow> nat \<Rightarrow> int \<times> nat \<times> nat \<Rightarrow> int \<times> nat \<times> nat" where
  "second_byte_step ob b i = (\<lambda>(offset, run_length, count).
     (let count = (if i = ob then 0 else count) in
      if char_bit b i then
        (if i \<ge> ob then (offset, run_length + push_bit count 1, count + 1)
         else (offset + push_bit count 1, run_length, count + 1))
      else (offset, run_length, count + 1)))"

text \<open>The offset and the run length of the back-reference made of the bytes \<open>b1\<close> and
  \<open>b2\<close>.\<close>

definition token_fields :: "nat \<Rightarrow> byte \<Rightarrow> byte \<Rightarrow> int \<times> nat" where
  "token_fields ob b1 b2 =
     (let (offset, count) = fold (first_byte_step b1) [0, 1, 2, 3, 4, 5, 6, 7] (- 1, 0);
          (offset, run_length, count) =
             fold (second_byte_step ob b2) [0, 1, 2, 3, 4, 5, 6, 7] (offset, 2, count)
      in (offset, run_length))"

definition next_offset :: "int \<Rightarrow> int \<Rightarrow> int" where
  "next_offset mo x = (if x < mo then x + 1 else 0)"

text \<open>The literal branch: one payload byte goes to the output and to the window.\<close>

definition literal :: "int \<Rightarrow> byte list \<Rightarrow> wstate \<Rightarrow> fault + (flow \<times> wstate)" where
  "literal mo cd s =
     (let cp = compressed_pointer s; up = uncompressed_pointer s; so = sliding_offset s in
      if \<not> cp < length cd \<or> \<not> up < length (uncompressed_data s)
         \<or> \<not> nat so < length (sliding_window s)
      then Inl OutOfBounds
      else Inr (Continue,
        s\<lparr>compressed_pointer := cp + 1,
          uncompressed_data := (uncompressed_data s)[up := Some (cd ! cp)],
          uncompressed_pointer := up + 1,
          sliding_window := (sliding_window s)[nat so := Some (cd ! cp)],
          sliding_offset := next_offset mo so\<rparr>))"

text \<open>The loop \<^verbatim>\<open>for (unsigned int i = 0; i < run_length; i++)\<close>, by the number of
  iterations left. In \<^verbatim>\<open>offset >= uncompressed_pointer\<close> the offset is converted to
  \<^verbatim>\<open>unsigned int\<close>; it is not negative there.\<close>

fun window_run :: "int \<Rightarrow> nat \<Rightarrow> int \<Rightarrow> wstate \<Rightarrow> fault + (flow \<times> wstate)" where
  "window_run mo 0 offset s = Inr (Continue, s)"
| "window_run mo (Suc n) offset s =
     (if offset > mo \<or> offset \<ge> int (uncompressed_pointer s)
      then Inr (Escape invalid_offset, s)
      else if \<not> nat offset < length (sliding_window s)
              \<or> \<not> nat (sliding_offset s) < length (sliding_window s)
              \<or> \<not> uncompressed_pointer s < length (uncompressed_data s)
      then Inl OutOfBounds
      else
        (let sw = (sliding_window s)[nat (sliding_offset s) := sliding_window s ! nat offset] in
         window_run mo n (next_offset mo offset)
           (s\<lparr>sliding_window := sw,
              sliding_offset := next_offset mo (sliding_offset s),
              uncompressed_data :=
                (uncompressed_data s)[uncompressed_pointer s := sw ! nat offset],
              uncompressed_pointer := uncompressed_pointer s + 1\<rparr>)))"

text \<open>The back-reference branch: two payload bytes, the two checks, the run.\<close>

definition back_reference ::
  "nat \<Rightarrow> nat \<Rightarrow> int \<Rightarrow> byte list \<Rightarrow> wstate \<Rightarrow> fault + (flow \<times> wstate)" where
  "back_reference ob mrl mo cd s =
     (let cp = compressed_pointer s in
      if \<not> cp + 1 < length cd then Inl OutOfBounds
      else
        (let (offset, run_length) = token_fields ob (cd ! cp) (cd ! (cp + 1));
             s' = s\<lparr>compressed_pointer := cp + 2\<rparr>
         in if offset < 0 then Inr (Escape invalid_offset, s')
            else if run_length > mrl then Inr (Escape invalid_run_length, s')
            else window_run mo run_length offset s'))"

text \<open>The loop \<^verbatim>\<open>for (unsigned char bit = 0; bit < 8; bit++)\<close> over the bits of a flag
  byte that are left, with its \<^verbatim>\<open>break\<close> when the payload is used up.\<close>

fun window_bits ::
  "nat \<Rightarrow> nat \<Rightarrow> int \<Rightarrow> byte list \<Rightarrow> byte \<Rightarrow> nat list \<Rightarrow> wstate \<Rightarrow> fault + (flow \<times> wstate)"
  where
  "window_bits ob mrl mo cd flag [] s = Inr (Continue, s)"
| "window_bits ob mrl mo cd flag (k # ks) s =
     (case (if char_bit flag k then literal mo cd s else back_reference ob mrl mo cd s) of
        Inl e \<Rightarrow> Inl e
      | Inr (Escape w, s') \<Rightarrow> Inr (Escape w, s')
      | Inr (Continue, s') \<Rightarrow>
          if compressed_pointer s' \<ge> length cd then Inr (Continue, s')
          else window_bits ob mrl mo cd flag ks s')"

partial_function (option) window_loop ::
  "nat \<Rightarrow> nat \<Rightarrow> int \<Rightarrow> byte list \<Rightarrow> wstate \<Rightarrow> (fault + (flow \<times> wstate)) option" where
  "window_loop ob mrl mo cd s =
     (if compressed_pointer s < length cd then
        (case window_bits ob mrl mo cd (cd ! compressed_pointer s) [0, 1, 2, 3, 4, 5, 6, 7]
                (s\<lparr>compressed_pointer := compressed_pointer s + 1\<rparr>) of
           Inl e \<Rightarrow> Some (Inl e)
         | Inr (Escape w, s') \<Rightarrow> Some (Inr (Escape w, s'))
         | Inr (Continue, s') \<Rightarrow> window_loop ob mrl mo cd s')
      else Some (Inr (Continue, s)))"

declare window_loop.simps [code]

text \<open>The decoder of a level above 1 whose \<^verbatim>\<open>offset_bits\<close> is \<open>ob\<close>: the buffers are
  allocated, the cursors start at 0.\<close>

definition window_decode ::
  "byte \<Rightarrow> byte list \<Rightarrow> nat \<Rightarrow> (fault + (flow \<times> wstate)) option" where
  "window_decode ob cd uncompressed_size =
     window_loop (unat ob) (max_run_length (run_length_bits ob)) (max_offset ob) cd
       \<lparr>compressed_pointer = 0, uncompressed_pointer = 0,
        uncompressed_data = replicate uncompressed_size None,
        sliding_window = replicate (nat (max_offset ob)) None,
        sliding_offset = 0\<rparr>"


subsection \<open>Archive reader\<close>

datatype message =
    ErrorOpeningArchive
  | ErrorOpeningFolder
  | CouldNotReadFilename
  | InvalidFilename
  | Extracting "byte list"
  | Adding "byte list"
  | CouldNotReadCompressedSize
  | CouldNotReadUncompressedSize
  | CouldNotReadCompressionLevel
  | CouldNotReadFileData
  | CompressedSizeDoesNotMatch
  | OutputSizeDoesNotMatch
  | ErrorOpeningFile "byte list"
  | CouldNotWriteFileData
  | UnsupportedRunAndOffsetLength "byte list"
  | InvalidOffset "byte list"
  | InvalidRunLength "byte list"
  | DoesNotMatchExpectedSize "byte list"

text \<open>The output folder, an association list from filenames to contents, and the log.\<close>

record ustate =
  files :: "(byte list \<times> cell list) list"
  log :: "message list"

definition say :: "message \<Rightarrow> ustate \<Rightarrow> ustate" where
  "say m st = st\<lparr>log := log st @ [m]\<rparr>"

definition write_file :: "byte list \<Rightarrow> cell list \<Rightarrow> ustate \<Rightarrow> ustate" where
  "write_file filename content st = st\<lparr>files := AList.update filename content (files st)\<rparr>"

text \<open>How an iteration of \<^verbatim>\<open>while (1)\<close> ends: \<^verbatim>\<open>unpack\<close> returns a status, or the
  loop goes on at a stream position.\<close>

datatype step = Return int ustate | Next nat ustate

text \<open>The level-0 branch. \<^verbatim>\<open>file_path\<close> is freed right after \<^verbatim>\<open>fopen\<close>, before the
  message of a failed \<^verbatim>\<open>fopen\<close> prints it. When the file has been written the branch frees
  \<^verbatim>\<open>compressed_data\<close>, and the \<^verbatim>\<open>free(compressed_data)\<close> that follows the branches
  frees it a second time: no path of the branch comes to the \<^verbatim>\<open>fseek\<close> behind it.\<close>

definition extract_stored ::
  "(byte list \<Rightarrow> bool) \<Rightarrow> byte list \<Rightarrow> byte list \<Rightarrow> nat \<Rightarrow> nat \<Rightarrow> ustate \<Rightarrow> fault + step" where
  "extract_stored can_open filename cd uncompressed_size next_position st =
     (let st1 = (if length cd \<noteq> uncompressed_size then say CompressedSizeDoesNotMatch st
                 else st)
      in if \<not> can_open filename then Inl UseAfterFree
         else
           (let st2 = write_file filename (map Some cd) st1 in
            Inl DoubleFree))"

text \<open>The level-1 branch. \<^verbatim>\<open>compressed_data\<close> is freed behind the decode loop and
  \<^verbatim>\<open>file_path\<close> right after \<^verbatim>\<open>fopen\<close>, before the message of a failed \<^verbatim>\<open>fopen\<close> prints
  it. \<^verbatim>\<open>fwrite(uncompressed_data, uncompressed_size, 1, f)\<close> returns 0 when the size is 0,
  and the branch returns; when it returns 1, the \<^verbatim>\<open>free(compressed_data)\<close> that follows
  the branches frees the payload a second time.\<close>

definition extract_rle ::
  "(byte list \<Rightarrow> bool) \<Rightarrow> byte list \<Rightarrow> byte list \<Rightarrow> nat \<Rightarrow> nat \<Rightarrow> ustate
     \<Rightarrow> (fault + step) option" where
  "extract_rle can_open filename cd uncompressed_size next_position st =
     (case rle_decode cd uncompressed_size of
        None \<Rightarrow> None
      | Some (Inl e) \<Rightarrow> Some (Inl e)
      | Some (Inr (cp, up, ud)) \<Rightarrow>
          (let st1 = (if up \<noteq> uncompressed_size then say OutputSizeDoesNotMatch st else st)
           in if \<not> can_open filename then Some (Inl UseAfterFree)
              else
                (let st2 = write_file filename ud st1 in
                 if uncompressed_size = 0
                 then Some (Inr (Return EXIT_FAILURE (say CouldNotWriteFileData st2)))
                 else Some (Inl DoubleFree))))"

text \<open>The branch of the levels above 1. It prints \<^verbatim>\<open>file_path\<close> before it frees it, and
  it leaves \<^verbatim>\<open>compressed_data\<close> to the \<^verbatim>\<open>free\<close> that follows the branches (the
  \<^verbatim>\<open>continue\<close> of an unsupported level frees it itself and skips that one).\<close>

definition escape_message :: "byte list \<Rightarrow> escape \<Rightarrow> message" where
  "escape_message filename w =
     (case w of invalid_offset \<Rightarrow> InvalidOffset filename
      | invalid_run_length \<Rightarrow> InvalidRunLength filename)"

definition extract_window ::
  "(byte list \<Rightarrow> bool) \<Rightarrow> byte list \<Rightarrow> byte \<Rightarrow> byte list \<Rightarrow> nat \<Rightarrow> nat \<Rightarrow> ustate
     \<Rightarrow> (fault + step) option" where
  "extract_window can_open filename compression_level cd uncompressed_size next_position st =
     (let ob = offset_bits compression_level in
      if unat ob > 8
      then Some (Inr (Next next_position (say (UnsupportedRunAndOffsetLength filename) st)))
      else
        (case window_decode ob cd uncompressed_size of
           None \<Rightarrow> None
         | Some (Inl e) \<Rightarrow> Some (Inl e)
         | Some (Inr (fl, s)) \<Rightarrow>
             (let st1 = (case fl of Continue \<Rightarrow> st
                         | Escape w \<Rightarrow> say (escape_message filename w) st);
                  st2 = (if uncompressed_pointer s \<noteq> uncompressed_size
                            \<or> compressed_pointer s \<noteq> length cd
                         then say (DoesNotMatchExpectedSize filename) st1 else st1)
              in if \<not> can_open filename
                 then Some (Inr (Return EXIT_FAILURE (say (ErrorOpeningFile filename) st2)))
                 else Some (Inr (Next next_position
                                   (write_file filename (uncompressed_data s) st2))))))"

text \<open>The first half of an iteration of \<^verbatim>\<open>while (1)\<close> in \<^verbatim>\<open>unpack\<close>, entered at the
  stream position \<open>position\<close>: the filename, the two sizes, the level and the payload are
  read. It ends at the \<^verbatim>\<open>break\<close> of the end-of-archive byte, at a \<^verbatim>\<open>return
  EXIT_FAILURE\<close> after the messages printed so far, or with the entry: its filename,
  \<^verbatim>\<open>uncompressed_size\<close>, \<^verbatim>\<open>compression_level\<close>, the payload (\<^verbatim>\<open>compressed_size\<close> is
  its length) and the stream position \<^verbatim>\<open>position + compressed_size\<close> behind it.\<close>

datatype entry_read =
    EndOfArchive
  | Failed "message list"
  | Entry "byte list" nat byte "byte list" nat

definition read_entry :: "byte list \<Rightarrow> nat \<Rightarrow> entry_read" where
  "read_entry archive position =
     (let filename_buffer = fread archive position FILENAME_SIZE;
          filename_read = length filename_buffer
      in
      if filename_read = 0 then Failed [CouldNotReadFilename]
      else if filename_read = 1 \<and> filename_buffer ! 0 = 0 then EndOfArchive
      else if \<not> filename_loop (filename_read - 1) 0 filename_buffer
      then Failed [InvalidFilename]
      else
        (let filename = c_string filename_buffer;
             p = position + strlen filename + 1
         in
         case read_u32 archive p of
           None \<Rightarrow> Failed [Extracting filename, CouldNotReadCompressedSize]
         | Some compressed_size \<Rightarrow>
         (case read_u32 archive (p + 4) of
           None \<Rightarrow> Failed [Extracting filename, CouldNotReadUncompressedSize]
         | Some uncompressed_size \<Rightarrow>
         (case read_char archive (p + 8) of
           None \<Rightarrow> Failed [Extracting filename, CouldNotReadCompressionLevel]
         | Some compression_level \<Rightarrow>
         (case read_data archive (p + 9) compressed_size of
           None \<Rightarrow> Failed [Extracting filename, CouldNotReadFileData]
         | Some cd \<Rightarrow>
             Entry filename uncompressed_size compression_level cd
               (p + 9 + compressed_size))))))"

text \<open>The second half: the codec is chosen by the level, a \<^verbatim>\<open>char\<close>. The payload has
  been read, so the stream is at \<open>next_position\<close> both after \<^verbatim>\<open>continue\<close> and after the
  last \<^verbatim>\<open>fseek\<close>.\<close>

definition extract_entry ::
  "(byte list \<Rightarrow> bool) \<Rightarrow> byte list \<Rightarrow> nat \<Rightarrow> byte \<Rightarrow> byte list \<Rightarrow> nat \<Rightarrow> ustate
     \<Rightarrow> (fault + step) option" where
  "extract_entry can_open filename uncompressed_size compression_level cd next_position st =
     (if sint compression_level = 0
      then Some (extract_stored can_open filename cd uncompressed_size next_position st)
      else if sint compression_level = 1
      then extract_rle can_open filename cd uncompressed_size next_position st
      else if sint compression_level > 1
      then extract_window can_open filename compression_level cd uncompressed_size
             next_position st
      else Some (Inr (Return EXIT_FAILURE st)))"

text \<open>One iteration of \<^verbatim>\<open>while (1)\<close>.\<close>

definition unpack_entry ::
  "(byte list \<Rightarrow> bool) \<Rightarrow> byte list \<Rightarrow> nat \<Rightarrow> ustate \<Rightarrow> (fault + step) option" where
  "unpack_entry can_open archive position st =
     (case read_entry archive position of
        EndOfArchive \<Rightarrow> Some (Inr (Return 0 st))
      | Failed messages \<Rightarrow> Some (Inr (Return EXIT_FAILURE (st\<lparr>log := log st @ messages\<rparr>)))
      | Entry filename uncompressed_size compression_level cd next_position \<Rightarrow>
          extract_entry can_open filename uncompressed_size compression_level cd next_position
            (say (Extracting filename) st))"

partial_function (option) unpack_loop ::
  "(byte list \<Rightarrow> bool) \<Rightarrow> byte list \<Rightarrow> nat \<Rightarrow> ustate \<Rightarrow> (fault + int \<times> ustate) option" where
  "unpack_loop can_open archive position st =
     (case unpack_entry can_open archive position st of
        None \<Rightarrow> None
      | Some (Inl e) \<Rightarrow> Some (Inl e)
      | Some (Inr (Return status st')) \<Rightarrow> Some (Inr (status, st'))
      | Some (Inr (Next position' st')) \<Rightarrow> unpack_loop can_open archive position' st')"

declare unpack_loop.simps [code]

text \<open>\<^verbatim>\<open>unpack\<close>: the archive file (\<open>None\<close> when it cannot be opened) and the output
  folder to the returned status, the folder and the log.\<close>

definition unpack ::
  "(byte list \<Rightarrow> bool) \<Rightarrow> byte list option \<Rightarrow> ustate \<Rightarrow> (fault + int \<times> ustate) option" where
  "unpack can_open archive st =
     (case archive of
        None \<Rightarrow> Some (Inr (EXIT_FAILURE, say ErrorOpeningArchive st))
      | Some a \<Rightarrow> unpack_loop can_open a 0 st)"

subsection \<open>Archive writer\<close>

text \<open>\<^verbatim>\<open>file_size_bytes\<close>: the four bytes of \<^verbatim>\<open>(unsigned int) file_size\<close>, lowest
  first.\<close>

definition file_size_bytes :: "nat \<Rightarrow> byte list" where
  "file_size_bytes file_size =
     (let u = file_size mod 2 ^ 32 in
      [of_nat (u AND 255), of_nat (drop_bit 8 u AND 255),
       of_nat (drop_bit 16 u AND 255), of_nat (drop_bit 24 u AND 255)])"

text \<open>The loop over the entries \<^verbatim>\<open>readdir\<close> returns: a name (a C string, so without
  a zero byte) and the file's bytes, \<open>None\<close> for a file that cannot be opened. The archive
  written so far and the log are carried along.\<close>

fun pack_loop ::
  "(byte list \<times> byte list option) list \<Rightarrow> byte list \<Rightarrow> message list
     \<Rightarrow> int \<times> byte list \<times> message list" where
  "pack_loop [] archive lg = (0, archive @ [0], lg)"
| "pack_loop ((d_name, file) # entries) archive lg =
     (if d_name = [46] \<or> d_name = [46, 46] then pack_loop entries archive lg
      else
        (case file of
           None \<Rightarrow> (EXIT_FAILURE, archive, lg @ [Adding d_name, ErrorOpeningFile d_name])
         | Some file_data \<Rightarrow>
             (let metadata = d_name @ [0] @ file_size_bytes (length file_data)
                               @ file_size_bytes (length file_data) @ [0]
              in pack_loop entries (archive @ metadata @ file_data) (lg @ [Adding d_name]))))"

text \<open>\<^verbatim>\<open>pack\<close>: the folder (\<open>None\<close> when it cannot be opened) and whether the archive can
  be opened for writing, to the status, the archive written and the log.\<close>

definition pack ::
  "(byte list \<times> byte list option) list option \<Rightarrow> bool
     \<Rightarrow> int \<times> byte list option \<times> message list" where
  "pack folder archive_can_open =
     (case folder of
        None \<Rightarrow> (EXIT_FAILURE, None, [ErrorOpeningFolder])
      | Some entries \<Rightarrow>
          if \<not> archive_can_open then (EXIT_FAILURE, None, [ErrorOpeningArchive])
          else (case pack_loop entries [] [] of
                  (status, archive, lg) \<Rightarrow> (status, Some archive, lg)))"

subsection \<open>The codecs in the words of the specification\<close>

text \<open>The RLE codec as the specification words it, on lists: a flag byte \<open>f\<close> above 127
  stands for \<open>f - 125\<close> copies of the next payload byte, any other flag byte for the next
  \<open>f + 1\<close> payload bytes as they are, group after group until the payload is used up.
  \<open>None\<close> when the payload ends inside a group, of which the specification says
  nothing.\<close>

fun rle_spec :: "byte list \<Rightarrow> byte list option" where
  "rle_spec [] = Some []"
| "rle_spec (f # rest) =
     (if unat f > 127 then
        (case rest of
           [] \<Rightarrow> None
         | b # rest' \<Rightarrow> map_option (\<lambda>out. replicate (unat f - 125) b @ out) (rle_spec rest'))
      else if length rest < unat f + 1 then None
      else map_option (\<lambda>out. take (unat f + 1) rest @ out)
             (rle_spec (drop (unat f + 1) rest)))"

text \<open>The two fields of a back-reference as the specification words them: the offset
  starts at \<open>-1\<close> and takes \<open>1 << k\<close> for every set bit \<open>k\<close> of the first byte and
  \<open>1 << (8 + k)\<close> for every set bit \<open>k\<close> among the low \<open>ob\<close> bits of the second; the run
  length starts at 2 and takes \<open>1 << k\<close> for every set bit \<open>ob + k\<close> of the second byte,
  the weights starting again at bit \<open>ob\<close>.\<close>

definition spec_offset :: "nat \<Rightarrow> byte \<Rightarrow> byte \<Rightarrow> int" where
  "spec_offset ob b1 b2 =
     - 1 + (\<Sum>k<8. if bit b1 k then 2 ^ k else 0)
         + (\<Sum>k<ob. if bit b2 k then 2 ^ (8 + k) else 0)"

definition spec_run_length :: "nat \<Rightarrow> byte \<Rightarrow> nat" where
  "spec_run_length ob b2 = 2 + (\<Sum>k<8 - ob. if bit b2 (ob + k) then 2 ^ k else 0)"

section \<open>Lemmas\<close>

subsection \<open>Reading the stream\<close>

lemma fread_length: "length (fread ar pos n) = min n (length ar - pos)"
  by (simp add: fread_def)

lemma fread_Cons:
  "pos < length ar \<Longrightarrow> 0 < n \<Longrightarrow> fread ar pos n = ar ! pos # fread ar (Suc pos) (n - 1)"
  by (cases n) (simp_all add: fread_def Cons_nth_drop_Suc[symmetric])

lemma not_valid_0: "\<not> valid_filename_character 0"
  by (simp add: valid_filename_character_def)

lemma read_entry_end:
  "(read_entry ar pos = EndOfArchive) = (pos + 1 = length ar \<and> ar ! pos = 0)"
proof (cases "pos < length ar")
  case False
  then show ?thesis by (simp add: read_entry_def Let_def fread_def)
next
  case True
  then have hd: "fread ar pos FILENAME_SIZE ! 0 = ar ! pos"
    by (simp add: fread_def FILENAME_SIZE_def)
  have len: "length (fread ar pos FILENAME_SIZE) = min 13 (length ar - pos)"
    by (simp add: fread_length FILENAME_SIZE_def)
  from True have "(length (fread ar pos FILENAME_SIZE) = 1) = (pos + 1 = length ar)"
    unfolding len by auto
  with True hd len show ?thesis
    by (auto simp: read_entry_def Let_def split: option.splits)
qed

lemma read_entry_zero_then_data:
  assumes "pos + 1 < length ar" "ar ! pos = 0"
  shows "read_entry ar pos = Failed [InvalidFilename]"
proof -
  from assms have c: "fread ar pos FILENAME_SIZE = 0 # fread ar (Suc pos) 12"
    by (simp add: fread_Cons FILENAME_SIZE_def)
  from assms have "length (fread ar (Suc pos) 12) > 0"
    by (simp add: fread_length)
  then show ?thesis
    by (simp add: read_entry_def Let_def c not_valid_0)
qed

lemma strlen_c_string: "strlen (c_string s) = length (c_string s)"
  by (simp add: strlen_def c_string_def)

lemma read_data_Some:
  "read_data ar q n = Some cd \<Longrightarrow>
     length cd = n \<and> 0 < n \<and> q + n \<le> length ar \<and> cd = fread ar q n"
  by (auto simp: read_data_def fread_def split: if_splits)

lemma read_entry_Entry:
  assumes "read_entry ar pos = Entry fn usize level cd next"
  shows "fn = c_string (fread ar pos FILENAME_SIZE) \<and>
         read_u32 ar (pos + length fn + 1) = Some (length cd) \<and>
         read_u32 ar (pos + length fn + 5) = Some usize \<and>
         read_char ar (pos + length fn + 9) = Some level \<and>
         cd = fread ar (pos + length fn + 10) (length cd) \<and>
         0 < length cd \<and>
         next = pos + length fn + 10 + length cd \<and> next \<le> length ar"
  using assms
  by (auto simp: read_entry_def Let_def strlen_c_string ac_simps
           split: if_splits option.splits dest!: read_data_Some)

lemma unpack_loop_Next:
  "unpack_entry can_open ar pos st = Some (Inr (Next pos' st')) \<Longrightarrow>
     unpack_loop can_open ar pos st = unpack_loop can_open ar pos' st'"
  by (subst unpack_loop.simps) simp

lemma unpack_loop_Return:
  "unpack_entry can_open ar pos st = Some (Inr (Return r st')) \<Longrightarrow>
     unpack_loop can_open ar pos st = Some (Inr (r, st'))"
  by (subst unpack_loop.simps) simp

subsection \<open>The RLE decoder and its specification\<close>

lemma rle_copy_cp: "rle_copy cd n cp up ud = Inr (cp', up', ud') \<Longrightarrow> cp' = cp + n"
  by (induction cd n cp up ud rule: rle_copy.induct) (auto split: if_splits)

lemma rle_group_cp: "rle_group cd cp up ud = Inr (cp', up', ud') \<Longrightarrow> cp < cp'"
  by (auto simp: rle_group_def Let_def split: if_splits sum.splits dest: rle_copy_cp)

lemma rle_loop_returns: "\<exists>r. rle_loop cd cp up ud = Some r"
proof (induction "length cd - cp" arbitrary: cp up ud rule: less_induct)
  case less
  show ?case
  proof (cases "cp < length cd")
    case False
    then show ?thesis by (subst rle_loop.simps) simp
  next
    case True
    show ?thesis
    proof (cases "rle_group cd cp up ud")
      case (Inl e)
      with True show ?thesis by (subst rle_loop.simps) simp
    next
      case (Inr t)
      obtain cp' up' ud' where t: "t = (cp', up', ud')" by (cases t)
      from Inr t have "cp < cp'" by (auto dest: rle_group_cp)
      with True have "length cd - cp' < length cd - cp" by simp
      from less[OF this] obtain r where "rle_loop cd cp' up' ud' = Some r" by blast
      with True Inr t show ?thesis by (subst rle_loop.simps) simp
    qed
  qed
qed

lemma rle_duplicate_eq:
  "rle_duplicate cd cp n up ud =
     (if n = 0 then Inr (up, ud)
      else if cp < length cd \<and> up + n \<le> length ud
      then Inr (up + n, take up ud @ replicate n (Some (cd ! cp)) @ drop (up + n) ud)
      else Inl OutOfBounds)"
proof (induction n arbitrary: up ud)
  case 0
  show ?case by simp
next
  case (Suc n)
  show ?case
  proof (cases "cp < length cd \<and> up < length ud")
    case False
    then show ?thesis by auto
  next
    case True
    then have u: "ud[up := Some (cd ! cp)] = take up ud @ Some (cd ! cp) # drop (Suc up) ud"
      by (simp add: upd_conv_take_nth_drop)
    have t: "take (Suc up) (ud[up := Some (cd ! cp)]) = take up ud @ [Some (cd ! cp)]"
      using True by (simp add: take_Suc_conv_app_nth)
    show ?thesis
    proof (cases "n = 0")
      case n0: True
      with True u show ?thesis by simp
    next
      case False
      with True t show ?thesis
        by (simp add: Suc.IH replicate_app_Cons_same)
    qed
  qed
qed

lemma rle_copy_eq:
  "cp \<le> length cd \<Longrightarrow> up \<le> length ud \<Longrightarrow>
   rle_copy cd n cp up ud =
     (if cp + n \<le> length cd \<and> up + n \<le> length ud
      then Inr (cp + n, up + n, take up ud @ map Some (take n (drop cp cd)) @ drop (up + n) ud)
      else Inl OutOfBounds)"
proof (induction n arbitrary: cp up ud)
  case 0
  then show ?case by simp
next
  case (Suc n)
  show ?case
  proof (cases "cp < length cd \<and> up < length ud")
    case False
    with Suc.prems show ?thesis by auto
  next
    case True
    have t: "take (Suc up) (ud[up := Some (cd ! cp)]) = take up ud @ [Some (cd ! cp)]"
      using True by (simp add: take_Suc_conv_app_nth)
    have d: "drop cp cd = cd ! cp # drop (Suc cp) cd"
      using True by (simp add: Cons_nth_drop_Suc)
    from True have "Suc cp \<le> length cd" "Suc up \<le> length (ud[up := Some (cd ! cp)])" by simp_all
    from Suc.IH[OF this] True t show ?thesis
      by (simp add: d)
  qed
qed

lemma splice_take:
  "length a = i \<Longrightarrow> length b = n \<Longrightarrow> take (i + n) (a @ b @ c) = a @ b"
  by simp

lemma splice_drop:
  "length a = i \<Longrightarrow> length b = n \<Longrightarrow>
     drop (i + n + k) (a @ b @ drop (i + n) c) = drop (i + n + k) c"
  by (simp add: ac_simps)

text \<open>The loop from any state inside the buffers: it returns the bytes of \<open>rle_spec\<close>
  behind what the output buffer holds, or leaves a buffer.\<close>

lemma rle_loop_spec:
  "cp \<le> length cd \<Longrightarrow> up \<le> length ud \<Longrightarrow>
   rle_loop cd cp up ud =
     Some (case rle_spec (drop cp cd) of
             None \<Rightarrow> Inl OutOfBounds
           | Some out \<Rightarrow>
               if up + length out \<le> length ud
               then Inr (length cd, up + length out,
                         take up ud @ map Some out @ drop (up + length out) ud)
               else Inl OutOfBounds)"
proof (induction "length cd - cp" arbitrary: cp up ud rule: less_induct)
  case less
  show ?case
  proof (cases "cp < length cd")
    case False
    with less.prems show ?thesis by (subst rle_loop.simps) simp
  next
    case True
    let ?f = "cd ! cp"
    have d: "drop cp cd = ?f # drop (Suc cp) cd"
      using True by (simp add: Cons_nth_drop_Suc)
    show ?thesis
    proof (cases "unat ?f > 127")
      case dup: True
      have cnt: "unat (?f - 125) = unat ?f - 125"
        using dup by (simp add: unat_sub word_le_nat_alt)
      let ?n = "unat ?f - 125"
      have n0: "?n \<noteq> 0" using dup by simp
      show ?thesis
      proof (cases "Suc cp < length cd \<and> up + ?n \<le> length ud")
        case False
        have g: "rle_group cd cp up ud = Inl OutOfBounds"
          using False dup n0 by (simp add: rle_group_def Let_def cnt rle_duplicate_eq)
        show ?thesis
        proof (cases "Suc cp < length cd")
          case False
          then have "drop (Suc cp) cd = []" by simp
          with True g dup show ?thesis
            by (subst rle_loop.simps) (simp add: d)
        next
          case c: True
          with False have over: "\<not> up + ?n \<le> length ud" by simp
          have d2: "drop (Suc cp) cd = cd ! Suc cp # drop (Suc (Suc cp)) cd"
            using c by (simp add: Cons_nth_drop_Suc)
          from True g dup over show ?thesis
            by (subst rle_loop.simps) (auto simp: d d2 split: option.splits)
        qed
      next
        case ok: True
        let ?ud = "take up ud @ replicate ?n (Some (cd ! Suc cp)) @ drop (up + ?n) ud"
        have g: "rle_group cd cp up ud = Inr (cp + 2, up + ?n, ?ud)"
          using ok dup n0 by (simp add: rle_group_def Let_def cnt rle_duplicate_eq)
        have d2: "drop (Suc cp) cd = cd ! Suc cp # drop (Suc (Suc cp)) cd"
          using ok by (simp add: Cons_nth_drop_Suc)
        have len: "length ?ud = length ud" using ok by simp
        have m: "length cd - (cp + 2) < length cd - cp" using True by simp
        have p1: "cp + 2 \<le> length cd" using ok by simp
        have p2: "up + ?n \<le> length ?ud" using ok by simp
        have lu: "length (take up ud) = up" using less.prems by simp
        have lm: "length (replicate ?n (Some (cd ! Suc cp))) = ?n" by simp
        have tk: "take (up + ?n) ?ud = take up ud @ replicate ?n (Some (cd ! Suc cp))"
          by (rule splice_take[OF lu lm])
        have dr: "\<And>k. drop (up + ?n + k) ?ud = drop (up + ?n + k) ud"
          by (rule splice_drop[OF lu lm])
        have step: "rle_loop cd cp up ud = rle_loop cd (cp + 2) (up + ?n) ?ud"
          using True g by (subst rle_loop.simps) simp
        show ?thesis
          unfolding step less.hyps[OF m p1 p2] len tk dr
          using dup by (auto simp: d d2 add.assoc split: option.splits)
      qed
    next
      case lit: False
      let ?n = "unat ?f + 1"
      have g: "rle_group cd cp up ud = rle_copy cd ?n (Suc cp) up ud"
        using lit by (simp add: rle_group_def Let_def)
      have le: "Suc cp \<le> length cd" using True by simp
      note cpy = rle_copy_eq[OF le less.prems(2), of ?n]
      show ?thesis
      proof (cases "Suc cp + ?n \<le> length cd \<and> up + ?n \<le> length ud")
        case False
        with g cpy have g': "rle_group cd cp up ud = Inl OutOfBounds" by simp
        show ?thesis
        proof (cases "Suc cp + ?n \<le> length cd")
          case False
          then have "length (drop (Suc cp) cd) < ?n" by simp
          with True g' lit show ?thesis
            by (subst rle_loop.simps) (simp add: d)
        next
          case c: True
          with False have over: "\<not> up + ?n \<le> length ud" by simp
          from c have l: "\<not> length (drop (Suc cp) cd) < ?n" by simp
          have lt: "length (take ?n (drop (Suc cp) cd)) = ?n" using c by (auto simp: min_def)
          from True g' lit over l lt show ?thesis
            by (subst rle_loop.simps) (auto simp: d split: option.splits)
        qed
      next
        case ok: True
        let ?lit = "take ?n (drop (Suc cp) cd)"
        let ?ud = "take up ud @ map Some ?lit @ drop (up + ?n) ud"
        have g': "rle_group cd cp up ud = Inr (Suc cp + ?n, up + ?n, ?ud)"
          using g cpy ok by simp
        have ll: "length ?lit = ?n" using ok by (auto simp: min_def)
        have len: "length ?ud = length ud" using ok by (auto simp: min_def)
        have m: "length cd - (Suc cp + ?n) < length cd - cp" using True by simp
        have p1: "Suc cp + ?n \<le> length cd" using ok by (auto simp: min_def)
        have p2: "up + ?n \<le> length ?ud" using ok by (auto simp: min_def)
        have lu: "length (take up ud) = up" using less.prems by simp
        have lm: "length (map Some ?lit) = ?n" using ll by simp
        have tk: "take (up + ?n) ?ud = take up ud @ map Some ?lit"
          by (rule splice_take[OF lu lm])
        have dr: "\<And>k. drop (up + ?n + k) ?ud = drop (up + ?n + k) ud"
          by (rule splice_drop[OF lu lm])
        have dd: "drop (Suc cp + ?n) cd = drop ?n (drop (Suc cp) cd)"
          by (simp add: add.commute)
        have l: "\<not> length (drop (Suc cp) cd) < ?n" using ok by (auto simp: min_def)
        have step: "rle_loop cd cp up ud = rle_loop cd (Suc cp + ?n) (up + ?n) ?ud"
          using True g' by (subst rle_loop.simps) simp
        show ?thesis
          unfolding step less.hyps[OF m p1 p2] len tk dr dd
          using lit l ll by (auto simp: d add.assoc split: option.splits)
      qed
    qed
  qed
qed

subsection \<open>The RLE cursor on the machine\<close>

lemma rle_cursor_group_step:
  "rle_cursor_group mem cp
     = cp + word_of_nat (if unat (mem (unat cp)) > 127 then 2 else unat (mem (unat cp)) + 2)"
  by (simp add: rle_cursor_group_def Let_def)

lemma rle_cursor_group_unat:
  assumes "unat cp + 129 < 2 ^ 32"
  shows "unat (rle_cursor_group mem cp)
           = unat cp + (if unat (mem (unat cp)) > 127 then 2 else unat (mem (unat cp)) + 2)"
proof -
  let ?d = "if unat (mem (unat cp)) > 127 then 2 else unat (mem (unat cp)) + 2"
  have d: "?d \<le> 129" by simp
  with assms have lt: "unat cp + ?d < 2 ^ 32" by linarith
  have "unat (rle_cursor_group mem cp) = unat (cp + word_of_nat ?d)"
    by (simp only: rle_cursor_group_step)
  also have "\<dots> = (unat cp + ?d) mod 2 ^ 32"
    by (simp only: unat_word_ariths unat_of_nat mod_add_right_eq) simp
  also have "\<dots> = unat cp + ?d" using lt by (rule mod_less)
  finally show ?thesis .
qed

text \<open>When \<^verbatim>\<open>compressed_size\<close> is at most \<open>2 ^ 32 - 130\<close> the cursor cannot wrap before
  it has come to \<^verbatim>\<open>compressed_size\<close>, and the loop returns, whatever the memory holds.\<close>

lemma rle_cursor_loop_returns:
  assumes "unat compressed_size + 129 < 2 ^ 32"
  shows "\<exists>cp'. rle_cursor_loop mem compressed_size cp = Some cp' \<and> compressed_size \<le> cp'"
proof (induction "unat compressed_size - unat cp" arbitrary: cp rule: less_induct)
  case less
  show ?case
  proof (cases "cp < compressed_size")
    case False
    then show ?thesis by (subst rle_cursor_loop.simps) simp
  next
    case True
    then have lt: "unat cp < unat compressed_size" by (simp add: word_less_nat_alt)
    with assms have "unat cp + 129 < 2 ^ 32" by linarith
    from rle_cursor_group_unat[OF this, of mem]
    have "unat cp < unat (rle_cursor_group mem cp)" by (simp split: if_splits)
    with lt have "unat compressed_size - unat (rle_cursor_group mem cp)
                    < unat compressed_size - unat cp" by linarith
    from less[OF this] True show ?thesis by (subst rle_cursor_loop.simps) simp
  qed
qed

text \<open>On zero bytes the cursor moves by 2: when the loop returns for
  \<^verbatim>\<open>compressed_size\<close> \<open>2 ^ 32 - 1\<close>, it has started at an odd cursor.\<close>

lemma rle_cursor_loop_parity:
  assumes "rle_cursor_loop mem cs cp = Some y"
  shows "mem = (\<lambda>_. 0) \<longrightarrow> cs = 0xFFFFFFFF \<longrightarrow> odd cp"
proof (rule rle_cursor_loop.raw_induct
         [where P = "\<lambda>mem cs cp y. mem = (\<lambda>_. 0) \<longrightarrow> cs = 0xFFFFFFFF \<longrightarrow> odd cp", OF _ assms])
  fix f :: "(nat \<Rightarrow> byte) \<Rightarrow> 32 word \<Rightarrow> 32 word \<Rightarrow> 32 word option"
  fix mem cs cp y
  assume IH: "\<And>mem cs cp y. f mem cs cp = Some y \<Longrightarrow>
                mem = (\<lambda>_. 0) \<longrightarrow> cs = 0xFFFFFFFF \<longrightarrow> odd cp"
    and eq: "(if cp < cs then f mem cs (rle_cursor_group mem cp) else Some cp) = Some y"
  show "mem = (\<lambda>_. 0) \<longrightarrow> cs = 0xFFFFFFFF \<longrightarrow> odd cp"
  proof (intro impI)
    assume m: "mem = (\<lambda>_. 0)" and c: "cs = 0xFFFFFFFF"
    show "odd cp"
    proof (cases "cp < cs")
      case True
      with eq have "f mem cs (rle_cursor_group mem cp) = Some y" by simp
      from IH[OF this] m c have "odd (rle_cursor_group mem cp)" by simp
      then show ?thesis by (simp add: rle_cursor_group_def m)
    next
      case False
      have "unat cp < 2 ^ 32" using unsigned_less[of cp, where 'a = nat] by simp
      moreover from False c have "\<not> unat cp < 4294967295" by (simp add: word_less_nat_alt)
      ultimately have "unat cp = unat (0xFFFFFFFF :: 32 word)" by simp
      then have "cp = 0xFFFFFFFF" by (simp only: word_unat_eq_iff)
      then show ?thesis by simp
    qed
  qed
qed


text \<open>Where an iteration stays inside the buffers, the cursor on the machine is the cursor
  of \<open>rle_group\<close>.\<close>

lemma rle_group_cursor:
  assumes "rle_group cd cp up ud = Inr (cp', up', ud')" and "cp < length cd"
      and "length cd < 2 ^ 32"
  shows "rle_cursor_group (\<lambda>i. cd ! i) (word_of_nat cp) = word_of_nat cp'"
proof -
  from assms(2,3) have u: "unat (word_of_nat cp :: 32 word) = cp"
    by (simp add: unat_of_nat)
  show ?thesis
  proof (cases "unat (cd ! cp) > 127")
    case True
    with assms(1) have "cp' = cp + 2"
      by (auto simp: rle_group_def Let_def split: sum.splits)
    with True show ?thesis by (simp add: rle_cursor_group_def u)
  next
    case False
    with assms(1) have "rle_copy cd (unat (cd ! cp) + 1) (cp + 1) up ud = Inr (cp', up', ud')"
      by (simp add: rle_group_def Let_def)
    from rle_copy_cp[OF this] have "cp' = cp + 1 + (unat (cd ! cp) + 1)" .
    with False show ?thesis by (simp add: rle_cursor_group_def u)
  qed
qed

subsection \<open>The cursor of the window decoder\<close>

lemma literal_cp:
  "literal mo cd s = Inr (fl, s') \<Longrightarrow> compressed_pointer s' = compressed_pointer s + 1"
  by (auto simp: literal_def Let_def split: if_splits)

lemma window_run_cp:
  "window_run mo n offset s = Inr (fl, s') \<Longrightarrow> compressed_pointer s' = compressed_pointer s"
  by (induction mo n offset s rule: window_run.induct) (auto simp: Let_def split: if_splits)

lemma back_reference_cp:
  "back_reference ob mrl mo cd s = Inr (fl, s') \<Longrightarrow>
     compressed_pointer s' = compressed_pointer s + 2"
  by (auto simp: back_reference_def Let_def split: if_splits prod.splits dest: window_run_cp)

lemma window_bits_cp:
  "window_bits ob mrl mo cd flag ks s = Inr (fl, s') \<Longrightarrow>
     compressed_pointer s \<le> compressed_pointer s'"
proof (induction ks arbitrary: s)
  case Nil
  then show ?case by simp
next
  case (Cons k ks)
  show ?case
  proof (cases "char_bit flag k")
    case True
    with Cons show ?thesis
      by (fastforce split: sum.splits flow.splits if_splits dest: literal_cp)
  next
    case False
    with Cons show ?thesis
      by (fastforce split: sum.splits flow.splits if_splits dest: back_reference_cp)
  qed
qed

lemma window_loop_returns: "\<exists>r. window_loop ob mrl mo cd s = Some r"
proof (induction "length cd - compressed_pointer s" arbitrary: s rule: less_induct)
  case less
  let ?s1 = "s\<lparr>compressed_pointer := compressed_pointer s + 1\<rparr>"
  let ?r = "window_bits ob mrl mo cd (cd ! compressed_pointer s) [0, 1, 2, 3, 4, 5, 6, 7] ?s1"
  show ?case
  proof (cases "compressed_pointer s < length cd")
    case False
    then show ?thesis by (subst window_loop.simps) simp
  next
    case True
    show ?thesis
    proof (cases ?r)
      case (Inl e)
      with True show ?thesis by (subst window_loop.simps) simp
    next
      case (Inr t)
      obtain fl s' where t: "t = (fl, s')" by (cases t)
      show ?thesis
      proof (cases fl)
        case (Escape w)
        with True Inr t show ?thesis by (subst window_loop.simps) simp
      next
        case Continue
        from Inr have eq: "?r = Inr (fl, s')" unfolding t .
        from window_bits_cp[OF eq] have "compressed_pointer ?s1 \<le> compressed_pointer s'" .
        with True have "length cd - compressed_pointer s' < length cd - compressed_pointer s"
          by simp
        from less[OF this] obtain r where "window_loop ob mrl mo cd s' = Some r" by blast
        with True Inr t Continue show ?thesis by (subst window_loop.simps) simp
      qed
    qed
  qed
qed

subsection \<open>Bits, fields and parameters of the window codec\<close>

lemma char_bit_eq: "i < 8 \<Longrightarrow> char_bit c i = bit c i"
proof -
  assume i: "i < 8"
  have "char_bit c i = bit (sint c) i"
    by (simp add: char_bit_def bit_iff_odd_drop_bit and_one_eq mod_2_eq_odd)
  also from i have "\<dots> = bit c i"
    by (simp add: bit_sint_iff)
  finally show ?thesis .
qed

lemma bits_list: "[0, 1, 2, 3, 4, 5, 6, 7] = [0..<8]"
  by (simp add: upt_rec)

lemma first_byte_fold:
  "n \<le> 8 \<Longrightarrow> fold (first_byte_step b) [0..<n] (off, c)
     = (off + (\<Sum>k<n. if bit b k then 2 ^ (c + k) else 0), c + n)"
proof (induction n)
  case 0
  show ?case by simp
next
  case (Suc n)
  then have n: "n < 8" by simp
  from Suc have IH: "fold (first_byte_step b) [0..<n] (off, c)
     = (off + (\<Sum>k<n. if bit b k then 2 ^ (c + k) else 0), c + n)" by simp
  have "fold (first_byte_step b) [0..<Suc n] (off, c)
          = first_byte_step b n (fold (first_byte_step b) [0..<n] (off, c))" by simp
  also have "\<dots> = first_byte_step b n
                     (off + (\<Sum>k<n. if bit b k then 2 ^ (c + k) else 0), c + n)"
    by (simp only: IH)
  also have "\<dots> = (off + (\<Sum>k<Suc n. if bit b k then 2 ^ (c + k) else 0), c + Suc n)"
    by (simp add: first_byte_step_def char_bit_eq[OF n] push_bit_eq_mult)
  finally show ?case .
qed

lemma second_byte_fold:
  "n \<le> 8 \<Longrightarrow> fold (second_byte_step ob b) [0..<n] (off, r, c)
     = (off + (\<Sum>k<min n ob. if bit b k then 2 ^ (c + k) else 0),
        r + (\<Sum>k<n - ob. if bit b (ob + k) then 2 ^ k else 0),
        if n \<le> ob then c + n else n - ob)"
proof (induction n)
  case 0
  show ?case by simp
next
  case (Suc n)
  then have n: "n < 8" by simp
  note cb = char_bit_eq[OF n]
  let ?o = "off + (\<Sum>k<min n ob. if bit b k then 2 ^ (c + k) else 0)"
  let ?r = "r + (\<Sum>k<n - ob. if bit b (ob + k) then 2 ^ k else 0)"
  let ?c = "if n \<le> ob then c + n else n - ob"
  from Suc have IH: "fold (second_byte_step ob b) [0..<n] (off, r, c) = (?o, ?r, ?c)" by simp
  have "fold (second_byte_step ob b) [0..<Suc n] (off, r, c)
          = second_byte_step ob b n (fold (second_byte_step ob b) [0..<n] (off, r, c))" by simp
  also have "\<dots> = second_byte_step ob b n (?o, ?r, ?c)"
    by (simp only: IH)
  also have "\<dots> = (off + (\<Sum>k<min (Suc n) ob. if bit b k then 2 ^ (c + k) else 0),
        r + (\<Sum>k<Suc n - ob. if bit b (ob + k) then 2 ^ k else 0),
        if Suc n \<le> ob then c + Suc n else Suc n - ob)"
  proof -
    consider "n < ob" | "n = ob" | "ob < n" by linarith
    then show ?thesis
    proof cases
      case 1
      then have "min (Suc n) ob = Suc n" "min n ob = n" "Suc n - ob = 0" "n - ob = 0"
        by simp_all
      with 1 show ?thesis
        by (simp add: second_byte_step_def cb push_bit_eq_mult Let_def)
    next
      case 2
      have "min (Suc n) ob = n" "min n ob = n" "Suc n - ob = Suc 0" "n - ob = 0"
        using 2 by simp_all
      then show ?thesis
        using cb by (simp add: second_byte_step_def push_bit_eq_mult Let_def 2[symmetric])
    next
      case 3
      then have "min (Suc n) ob = ob" "min n ob = ob" "Suc n - ob = Suc (n - ob)"
        by simp_all
      with 3 show ?thesis
        by (simp add: second_byte_step_def cb push_bit_eq_mult Let_def)
    qed
  qed
  finally show ?case .
qed

lemma token_fields_spec:
  "ob \<le> 8 \<Longrightarrow> token_fields ob b1 b2 = (spec_offset ob b1 b2, spec_run_length ob b2)"
  unfolding token_fields_def bits_list
  by (simp add: first_byte_fold second_byte_fold
        spec_offset_def spec_run_length_def min_def add.commute)

lemma sum_bits_uint: "(\<Sum>k<8. if bit b k then 2 ^ k else 0) = uint (b :: byte)"
proof -
  have "uint b = take_bit 8 (uint b)" by (simp add: take_bit_eq_mod uint_bounded[where 'a=8, simplified] )
  also have "\<dots> = (\<Sum>k = 0..<8. push_bit k (of_bool (bit (uint b) k)))"
    by (rule take_bit_sum)
  also have "\<dots> = (\<Sum>k<8. if bit b k then 2 ^ k else 0)"
    by (rule sum.cong) (auto simp: bit_uint_iff push_bit_eq_mult)
  finally show ?thesis by simp
qed


lemma offset_bits_uint: "uint (offset_bits level) = (6 - sint level) mod 256"
proof -
  have "uint (offset_bits level) = (6 - sint level) mod 2 ^ LENGTH(8)"
    unfolding offset_bits_def by (rule uint_word_of_int)
  then show ?thesis by simp
qed

lemma sint_byte_range: "- 128 \<le> sint (c :: byte) \<and> sint c \<le> 127"
  using sint_ge[of c] sint_lt[of c] by simp

lemma unat_le_uint: "(unat (w :: byte) \<le> n) = (uint w \<le> int n)"
  unfolding uint_nat by (rule of_nat_le_iff[symmetric])

lemma offset_bits_supported:
  assumes "1 < sint (level :: byte)"
  shows "unat (offset_bits level) \<le> 8 \<longleftrightarrow> sint level \<le> 6"
proof -
  from sint_byte_range[of level] have r: "sint level \<le> 127" by simp
  show ?thesis
  proof (cases "sint level \<le> 6")
    case True
    with assms have "(6 - sint level) mod 256 = 6 - sint level" by simp
    then have "uint (offset_bits level) = 6 - sint level"
      by (simp only: offset_bits_uint)
    with True assms show ?thesis by (simp add: unat_le_uint)
  next
    case False
    have "(6 - sint level) mod 256 = (6 - sint level + 256) mod 256"
      by (rule mod_add_self2[symmetric])
    also have "\<dots> = 6 - sint level + 256" using False r by simp
    finally have "uint (offset_bits level) = 262 - sint level"
      by (simp only: offset_bits_uint)
    with False r show ?thesis by (simp add: unat_le_uint)
  qed
qed

lemma offset_bits_value:
  assumes "1 < sint (level :: byte)" "unat (offset_bits level) \<le> 8"
  shows "uint (offset_bits level) = 6 - sint level"
proof -
  from assms have "sint level \<le> 6" by (simp add: offset_bits_supported)
  with assms(1) have "(6 - sint level) mod 256 = 6 - sint level" by simp
  then show ?thesis by (simp only: offset_bits_uint)
qed

lemma run_length_bits_unat:
  assumes "unat (ob :: byte) \<le> 8"
  shows "unat (run_length_bits ob) = 8 - unat ob"
proof -
  from assms have u: "uint ob \<le> 8" by (simp add: unat_le_uint)
  have "uint (run_length_bits ob) = (8 - uint ob) mod 2 ^ LENGTH(8)"
    unfolding run_length_bits_def by (rule uint_word_of_int)
  also have "\<dots> = 8 - uint ob"
  proof (rule mod_pos_pos_trivial)
    show "0 \<le> 8 - uint ob" using u by linarith
    have g: "0 \<le> uint ob" by simp
    have "(2::int) ^ LENGTH(8) = 256" by simp
    with g show "8 - uint ob < 2 ^ LENGTH(8)" by linarith
  qed
  finally have e: "uint (run_length_bits ob) = 8 - uint ob" .
  have "unat (run_length_bits ob) = nat (uint (run_length_bits ob))"
    by (rule unat_eq_nat_uint)
  also have "\<dots> = nat (8 - int (unat ob))"
    unfolding e uint_nat[of ob] ..
  also have "\<dots> = 8 - unat ob" by arith
  finally show ?thesis .
qed

lemma max_run_length_eq: "max_run_length rlb = 2 ^ unat rlb + 2"
  by (simp add: max_run_length_def push_bit_eq_mult)

lemma max_offset_eq: "max_offset ob = 2 ^ (unat ob + 8) - 1"
  by (simp add: max_offset_def push_bit_eq_mult)

lemma offset_bits_2: "offset_bits 2 = 4"
  by (simp add: offset_bits_def)

lemma max_offset_4: "max_offset 4 = 4095"
  by (simp add: max_offset_def)

lemma replicate_8: "replicate 8 x = [x, x, x, x, x, x, x, x]"
  by (simp add: numeral_eq_Suc)

lemma window_4095: "replicate 4095 x = replicate 8 x @ replicate 4087 x"
  by (simp add: replicate_add[symmetric])

lemma window_run_unfold:
  "window_run mo n offset s =
     (if n = 0 then Inr (Continue, s)
      else if offset > mo \<or> offset \<ge> int (uncompressed_pointer s)
      then Inr (Escape invalid_offset, s)
      else if \<not> nat offset < length (sliding_window s)
              \<or> \<not> nat (sliding_offset s) < length (sliding_window s)
              \<or> \<not> uncompressed_pointer s < length (uncompressed_data s)
      then Inl OutOfBounds
      else
        (let sw = (sliding_window s)[nat (sliding_offset s) := sliding_window s ! nat offset] in
         window_run mo (n - 1) (next_offset mo offset)
           (s\<lparr>sliding_window := sw,
              sliding_offset := next_offset mo (sliding_offset s),
              uncompressed_data :=
                (uncompressed_data s)[uncompressed_pointer s := sw ! nat offset],
              uncompressed_pointer := uncompressed_pointer s + 1\<rparr>)))"
  by (cases n) simp_all

lemma sum_low_bits:
  "(\<Sum>k<n. if bit (b :: byte) k then 2 ^ k else 0) = take_bit n (uint b)"
proof -
  have "take_bit n (uint b) = (\<Sum>k = 0..<n. push_bit k (of_bool (bit (uint b) k)))"
    by (rule take_bit_sum)
  also have "\<dots> = (\<Sum>k<n. if bit b k then 2 ^ k else 0)"
    by (rule sum.cong) (auto simp: bit_uint_iff push_bit_eq_mult dest: bit_imp_le_length)
  finally show ?thesis by simp
qed

lemma sum_low_bits_nat:
  "(\<Sum>k<n. if bit (b :: byte) k then 2 ^ k else 0) = take_bit n (unat b)"
proof -
  have "take_bit n (unat b) = (\<Sum>k = 0..<n. push_bit k (of_bool (bit (unat b) k)))"
    by (rule take_bit_sum)
  also have "\<dots> = (\<Sum>k<n. if bit b k then 2 ^ k else 0)"
    by (rule sum.cong)
       (auto simp: bit_unsigned_iff push_bit_eq_mult possible_bit_def dest: bit_imp_le_length)
  finally show ?thesis by simp
qed

lemma spec_offset_closed:
  assumes "ob \<le> 8"
  shows "spec_offset ob b1 b2 = uint b1 + 256 * (uint b2 mod 2 ^ ob) - 1"
proof -
  have a: "(\<Sum>k<8. if bit b1 k then 2 ^ k else 0) = uint b1"
    by (rule sum_bits_uint)
  have "(\<Sum>k<ob. if bit b2 k then 2 ^ (8 + k) else (0 :: int))
          = (\<Sum>k<ob. 256 * (if bit b2 k then 2 ^ k else 0))"
    by (rule sum.cong) (simp_all add: power_add)
  also have "\<dots> = 256 * (\<Sum>k<ob. if bit b2 k then 2 ^ k else 0)"
    by (simp only: sum_distrib_left)
  also have "\<dots> = 256 * (uint b2 mod 2 ^ ob)"
    by (simp only: sum_low_bits take_bit_eq_mod)
  finally show ?thesis by (simp add: spec_offset_def a)
qed

lemma spec_run_length_closed:
  assumes "ob \<le> 8"
  shows "spec_run_length ob b2 = 2 + unat b2 div 2 ^ ob"
proof -
  let ?d = "drop_bit ob b2"
  have "(\<Sum>k<8 - ob. if bit b2 (ob + k) then 2 ^ k else (0 :: nat))
          = (\<Sum>k<8 - ob. if bit ?d k then 2 ^ k else 0)"
    by (rule sum.cong) (simp_all add: bit_drop_bit_eq add.commute)
  also have "\<dots> = take_bit (8 - ob) (unat ?d)" by (rule sum_low_bits_nat)
  also have "\<dots> = take_bit (8 - ob) (drop_bit ob (unat b2))"
    by (simp only: unat_drop_bit_eq)
  also have "\<dots> = take_bit (8 - ob) (unat b2 div 2 ^ ob)"
    by (simp only: drop_bit_eq_div)
  also have "\<dots> = unat b2 div 2 ^ ob"
  proof (rule take_bit_nat_eq_self)
    have "unat b2 < 2 ^ 8" using unsigned_less[of b2, where 'a = nat] by simp
    also have "(2 :: nat) ^ 8 = 2 ^ (8 - ob) * 2 ^ ob"
      using assms by (simp add: power_add[symmetric])
    finally show "unat b2 div 2 ^ ob < 2 ^ (8 - ob)"
      by (rule less_mult_imp_div_less)
  qed
  finally show ?thesis by (simp add: spec_run_length_def)
qed

lemma max_run_length_4: "max_run_length (run_length_bits 4) = 18"
  by (simp add: max_run_length_def run_length_bits_def)

lemma unsupported_level_iff:
  "(1 < sint (level :: byte) \<and> 8 < unat (offset_bits level)) = (7 \<le> sint level)"
proof (cases "1 < sint level")
  case True
  then have "(unat (offset_bits level) \<le> 8) = (sint level \<le> 6)"
    by (rule offset_bits_supported)
  with True show ?thesis by auto
next
  case False
  then show ?thesis by simp
qed

text \<open>Where the window decoder leaves by \<^verbatim>\<open>goto ESCAPE_LOOP\<close>: at a back-reference whose
  offset is negative or whose run length is above the limit, and before a byte of a run
  when the running offset is above \<^verbatim>\<open>max_offset\<close> or not below the number of bytes
  written; the loops over the bits and over the flag bytes pass it on.\<close>

lemma escape_conditions:
  "(compressed_pointer s + 1 < length cd \<and>
      fst (token_fields ob (cd ! compressed_pointer s) (cd ! (compressed_pointer s + 1))) < 0
    \<longrightarrow> back_reference ob mrl mo cd s
          = Inr (Escape invalid_offset, s\<lparr>compressed_pointer := compressed_pointer s + 2\<rparr>)) \<and>
   (compressed_pointer s + 1 < length cd \<and>
      0 \<le> fst (token_fields ob (cd ! compressed_pointer s) (cd ! (compressed_pointer s + 1))) \<and>
      mrl < snd (token_fields ob (cd ! compressed_pointer s) (cd ! (compressed_pointer s + 1)))
    \<longrightarrow> back_reference ob mrl mo cd s
          = Inr (Escape invalid_run_length,
                 s\<lparr>compressed_pointer := compressed_pointer s + 2\<rparr>)) \<and>
   (mo < offset \<or> int (uncompressed_pointer s) \<le> offset
    \<longrightarrow> window_run mo (Suc n) offset s = Inr (Escape invalid_offset, s)) \<and>
   ((if char_bit flag k then literal mo cd s else back_reference ob mrl mo cd s)
      = Inr (Escape w, s')
    \<longrightarrow> window_bits ob mrl mo cd flag (k # ks) s = Inr (Escape w, s')) \<and>
   (compressed_pointer s < length cd \<and>
      window_bits ob mrl mo cd (cd ! compressed_pointer s) [0, 1, 2, 3, 4, 5, 6, 7]
        (s\<lparr>compressed_pointer := compressed_pointer s + 1\<rparr>) = Inr (Escape w, s')
    \<longrightarrow> window_loop ob mrl mo cd s = Some (Inr (Escape w, s')))"
proof (intro conjI impI)
  show "window_loop ob mrl mo cd s = Some (Inr (Escape w, s'))"
    if "compressed_pointer s < length cd \<and>
      window_bits ob mrl mo cd (cd ! compressed_pointer s) [0, 1, 2, 3, 4, 5, 6, 7]
        (s\<lparr>compressed_pointer := compressed_pointer s + 1\<rparr>) = Inr (Escape w, s')"
    using that by (subst window_loop.simps) simp
qed (auto simp: back_reference_def Let_def split: prod.splits)






subsection \<open>The filename validator\<close>

lemma sint_byte: "sint (c :: byte) = (if uint c < 128 then uint c else uint c - 256)"
proof -
  have u: "uint c = sint c mod 256" using uint_sint[of c] by (simp add: take_bit_eq_mod)
  from sint_byte_range[of c] have r: "- 128 \<le> sint c" "sint c \<le> 127" by simp_all
  show ?thesis
  proof (cases "0 \<le> sint c")
    case True
    with r have "sint c mod 256 = sint c" by simp
    with u have "uint c = sint c" by simp
    with r show ?thesis by simp
  next
    case False
    have "sint c mod 256 = (sint c + 256) mod 256" by (rule mod_add_self2[symmetric])
    also have "\<dots> = sint c + 256"
      by (rule mod_pos_pos_trivial) (use False r in linarith)+
    finally have "uint c = sint c + 256" using u by simp
    with False r show ?thesis by simp
  qed
qed

text \<open>The characters the validator accepts, by their codes, and the names it accepts: the
  loop over the bytes read succeeds exactly when a zero byte stands at an index above 0 and
  every byte before it is accepted.\<close>

lemma valid_filename_character_iff:
  "valid_filename_character c \<longleftrightarrow>
     uint c \<in> {33} \<union> {36..41} \<union> {45, 46} \<union> {48..57} \<union> {64..90} \<union> {94..123} \<union> {125, 126}"
proof (cases "uint c < 128")
  case True
  then have "sint c = uint c" by (simp add: sint_byte)
  then show ?thesis unfolding valid_filename_character_def by simp linarith
next
  case False
  have "uint c < 256" using uint_bounded[of c] by simp
  with False have "sint c < 0" by (simp add: sint_byte)
  with False show ?thesis unfolding valid_filename_character_def by simp
qed

lemma valid_nonzero: "valid_filename_character c \<Longrightarrow> c \<noteq> 0"
  using not_valid_0 by auto

lemma filename_loop_exact:
  "bs \<noteq> [] \<Longrightarrow>
   filename_loop (i + length bs - 1) i bs =
     (\<exists>k<length bs. 0 < i + k \<and> bs ! k = 0 \<and> (\<forall>j<k. valid_filename_character (bs ! j)))"
proof (induction bs arbitrary: i)
  case Nil
  then show ?case by simp
next
  case (Cons b bs)
  let ?R = "\<lambda>i bs. \<exists>k<length bs. 0 < i + k \<and> bs ! k = 0 \<and> (\<forall>j<k. valid_filename_character (bs ! j))"
  show ?case
  proof (cases "0 < i \<and> b = 0")
    case True
    then have "?R i (b # bs)" by (intro exI[of _ 0]) simp
    with True show ?thesis by simp
  next
    case nb: False
    show ?thesis
    proof (cases "valid_filename_character b")
      case False
      have "\<not> ?R i (b # bs)"
      proof
        assume "?R i (b # bs)"
        then obtain k where k: "k < length (b # bs)" "0 < i + k" "(b # bs) ! k = 0"
          "\<forall>j<k. valid_filename_character ((b # bs) ! j)" by blast
        show False
        proof (cases k)
          case 0
          with k nb show False by simp
        next
          case (Suc k')
          with k(4) have "valid_filename_character ((b # bs) ! 0)" by blast
          with False show False by simp
        qed
      qed
      moreover have "\<not> filename_loop (i + length (b # bs) - 1) i (b # bs)"
        using nb False by simp
      ultimately show ?thesis by blast
    next
      case v: True
      then have b0: "b \<noteq> 0" by (rule valid_nonzero)
      show ?thesis
      proof (cases "bs = []")
        case True
        with b0 show ?thesis by auto
      next
        case ne: False
        then have "i \<noteq> i + length (b # bs) - 1" by (cases bs) simp_all
        then have step: "filename_loop (i + length (b # bs) - 1) i (b # bs)
                     = filename_loop (Suc i + length bs - 1) (Suc i) bs"
          using v b0 by simp
        have "?R i (b # bs) = ?R (Suc i) bs"
        proof
          assume "?R i (b # bs)"
          then obtain k where k: "k < length (b # bs)" "0 < i + k" "(b # bs) ! k = 0"
            "\<forall>j<k. valid_filename_character ((b # bs) ! j)" by blast
          from k(3) b0 obtain k' where k': "k = Suc k'" by (cases k) auto
          with k have "k' < length bs" "bs ! k' = 0" by simp_all
          moreover from k(4) k' have "\<forall>j<k'. valid_filename_character (bs ! j)"
            by (metis Suc_less_eq nth_Cons_Suc)
          ultimately show "?R (Suc i) bs" by auto
        next
          assume "?R (Suc i) bs"
          then obtain k where k: "k < length bs" "bs ! k = 0"
            "\<forall>j<k. valid_filename_character (bs ! j)" by blast
          have "\<forall>j<Suc k. valid_filename_character ((b # bs) ! j)"
            using k(3) v by (auto simp: nth_Cons split: nat.splits)
          with k show "?R i (b # bs)" by (intro exI[of _ "Suc k"]) simp
        qed
        with step Cons.IH[OF ne, of "Suc i"] show ?thesis by simp
      qed
    qed
  qed
qed

subsection \<open>Entries as the writer makes them\<close>

lemma and_255: "(u :: nat) AND 255 = u mod 256"
proof -
  have "u AND mask 8 = u mod 2 ^ 8" by (simp only: take_bit_eq_mask[symmetric] take_bit_eq_mod)
  then show ?thesis by (simp add: mask_eq_exp_minus_1)
qed

lemma unat_of_nat_byte: "unat (of_nat k :: byte) = k mod 256"
  by (simp add: unat_of_nat)

lemma le32_split:
  "(u :: nat) mod 256 + 256 * (u div 256 mod 256) + 65536 * (u div 65536 mod 256)
       + 16777216 * (u div 16777216) = u"
proof -
  let ?a = "u div 256" and ?b = "u div 65536" and ?c = "u div 16777216"
  have b: "?b = ?a div 256" by (simp add: div_mult2_eq)
  have c: "?c = ?b div 256" by (simp add: div_mult2_eq)
  have 1: "u = 256 * ?a + u mod 256" by (rule mult_div_mod_eq[symmetric])
  have 2: "?a = 256 * ?b + ?a mod 256" unfolding b by (rule mult_div_mod_eq[symmetric])
  have 3: "?b = 256 * ?c + ?b mod 256" unfolding c by (rule mult_div_mod_eq[symmetric])
  from 1 2 3 show ?thesis by linarith
qed

lemma file_size_bytes_value:
  assumes "n < 2 ^ 32"
  shows "file_size_bytes n =
           [of_nat (n mod 256), of_nat (n div 256 mod 256), of_nat (n div 65536 mod 256),
            of_nat (n div 16777216)]"
proof -
  from assms have m: "n mod 2 ^ 32 = n" by simp
  have d: "drop_bit 8 n = n div 256" "drop_bit 16 n = n div 65536"
    "drop_bit 24 n = n div 16777216" by (simp_all add: drop_bit_eq_div)
  from assms have "n div 16777216 < 256" by simp
  then have l: "n div 16777216 mod 256 = n div 16777216" by simp
  show ?thesis
    unfolding file_size_bytes_def Let_def m d and_255 l ..
qed

lemma read_u32_file_size_bytes:
  assumes "n < 2 ^ 32"
  shows "read_u32 (pre @ file_size_bytes n @ rest) (length pre) = Some n"
proof -
  from assms have "n div 16777216 < 256" by simp
  then have l: "n div 16777216 mod 256 = n div 16777216" by simp
  have "fread (pre @ file_size_bytes n @ rest) (length pre) 4 = file_size_bytes n"
    by (simp add: fread_def file_size_bytes_value[OF assms])
  then show ?thesis
    using le32_split[of n]
    by (simp add: read_u32_def file_size_bytes_value[OF assms] unat_of_nat_byte l)
qed

lemma filename_loop_name:
  "\<forall>c\<in>set n. valid_filename_character c \<Longrightarrow> n \<noteq> [] \<or> 0 < i \<Longrightarrow> i + length n \<le> l \<Longrightarrow>
     filename_loop l i (n @ 0 # t)"
proof (induction n arbitrary: i)
  case Nil
  then show ?case by simp
next
  case (Cons c n)
  then have "valid_filename_character c" "c \<noteq> 0" by (auto dest: valid_nonzero)
  moreover from Cons.prems have "i \<noteq> l" by simp
  moreover have "filename_loop l (Suc i) (n @ 0 # t)"
    using Cons.prems by (intro Cons.IH) simp_all
  ultimately show ?case by simp
qed

lemma c_string_name:
  "\<forall>c\<in>set n. valid_filename_character c \<Longrightarrow> c_string (n @ 0 # t) = n"
  by (induction n) (auto simp: c_string_def dest: valid_nonzero)

lemma fread_name:
  "length n \<le> 12 \<Longrightarrow>
     fread (pre @ n @ 0 # t) (length pre) FILENAME_SIZE = n @ 0 # take (12 - length n) t"
  by (simp add: fread_def FILENAME_SIZE_def take_Cons')

lemma read_entry_EntryI:
  assumes "fread ar pos FILENAME_SIZE = buf" and "1 < length buf"
      and "filename_loop (length buf - 1) 0 buf" and "c_string buf = fn"
      and "read_u32 ar (pos + length fn + 1) = Some csize"
      and "read_u32 ar (pos + length fn + 1 + 4) = Some usize"
      and "read_char ar (pos + length fn + 1 + 8) = Some level"
      and "read_data ar (pos + length fn + 1 + 9) csize = Some cd"
  shows "read_entry ar pos = Entry fn usize level cd (pos + length fn + 1 + 9 + csize)"
proof -
  have "strlen (c_string buf) = length (c_string buf)" by (rule strlen_c_string)
  also have "\<dots> = length fn" by (simp only: assms(4))
  finally have s: "strlen (c_string buf) = length fn" .
  show ?thesis
    unfolding read_entry_def assms(1) Let_def s
    using assms(2-8) by auto
qed

text \<open>An entry as \<^verbatim>\<open>pack\<close> writes it is read back as a level-0 entry.\<close>

lemma read_entry_packed:
  assumes n: "n \<noteq> []" "length n \<le> 12" "\<forall>c\<in>set n. valid_filename_character c"
      and d: "d \<noteq> []" "length d < 2 ^ 32"
  shows "read_entry (pre @ n @ 0 # file_size_bytes (length d) @ file_size_bytes (length d)
                       @ 0 # d @ rest) (length pre)
           = Entry n (length d) 0 d (length pre + length n + 1 + 9 + length d)"
proof (rule read_entry_EntryI)
  let ?fs = "file_size_bytes (length d)"
  let ?tail = "?fs @ ?fs @ 0 # d @ rest"
  let ?ar = "pre @ n @ 0 # ?tail"
  let ?buf = "n @ 0 # take (12 - length n) ?tail"
  have lfs: "length ?fs = 4" by (simp add: file_size_bytes_def Let_def)
  show "fread ?ar (length pre) FILENAME_SIZE = ?buf"
    using n(2) by (rule fread_name)
  show "1 < length ?buf" using n(1) by (cases n) simp_all
  show "filename_loop (length ?buf - 1) 0 ?buf"
    using n by (intro filename_loop_name) simp_all
  show "c_string ?buf = n" using n(3) by (rule c_string_name)
  have a1: "?ar = (pre @ n @ [0]) @ ?fs @ (?fs @ 0 # d @ rest)" by simp
  have a2: "?ar = (pre @ n @ [0] @ ?fs) @ ?fs @ (0 # d @ rest)" by simp
  have l1: "length pre + length n + 1 = length (pre @ n @ [0])" by simp
  have l2: "length pre + length n + 1 + 4 = length (pre @ n @ [0] @ ?fs)" by (simp add: lfs)
  show "read_u32 ?ar (length pre + length n + 1) = Some (length d)"
    unfolding l1 by (subst a1) (rule read_u32_file_size_bytes[OF d(2)])
  show "read_u32 ?ar (length pre + length n + 1 + 4) = Some (length d)"
    unfolding l2 by (subst a2) (rule read_u32_file_size_bytes[OF d(2)])
  show "read_char ?ar (length pre + length n + 1 + 8) = Some 0"
    by (simp add: read_char_def fread_def lfs)
  show "read_data ?ar (length pre + length n + 1 + 9) (length d) = Some d"
    using d(1) by (simp add: read_data_def fread_def lfs)
qed

text \<open>What the reader does with the bytes at the place of a filename: it fails for no byte
  read, it refuses the name exactly when no zero byte at an index above 0 follows bytes
  that the validator accepts, it takes a name of 1 to 12 accepted characters and a zero
  byte, and it refuses 12 characters that no zero byte follows.\<close>

lemma filename_validator_exact:
  "(valid_filename_character c \<longleftrightarrow>
      uint c \<in> {33} \<union> {36..41} \<union> {45, 46} \<union> {48..57} \<union> {64..90} \<union> {94..123}
                \<union> {125, 126}) \<and>
   (read_entry ar pos = Failed [CouldNotReadFilename] \<longleftrightarrow> fread ar pos FILENAME_SIZE = []) \<and>
   (read_entry ar pos = Failed [InvalidFilename] \<longleftrightarrow>
      fread ar pos FILENAME_SIZE \<noteq> [] \<and> fread ar pos FILENAME_SIZE \<noteq> [0] \<and>
      \<not> (\<exists>k<length (fread ar pos FILENAME_SIZE).
            0 < k \<and> fread ar pos FILENAME_SIZE ! k = 0 \<and>
            (\<forall>j<k. valid_filename_character (fread ar pos FILENAME_SIZE ! j)))) \<and>
   (n \<noteq> [] \<and> length n \<le> 12 \<and> (\<forall>c\<in>set n. valid_filename_character c) \<longrightarrow>
      read_entry (pre @ n @ 0 # t) (length pre) \<noteq> Failed [CouldNotReadFilename] \<and>
      read_entry (pre @ n @ 0 # t) (length pre) \<noteq> Failed [InvalidFilename] \<and>
      read_entry (pre @ n @ 0 # t) (length pre) \<noteq> EndOfArchive) \<and>
   (length n = 12 \<and> 0 \<notin> set n \<and> x \<noteq> 0 \<longrightarrow>
      read_entry (pre @ n @ x # t) (length pre) = Failed [InvalidFilename])"
proof -
  have 1: "valid_filename_character c \<longleftrightarrow>
      uint c \<in> {33} \<union> {36..41} \<union> {45, 46} \<union> {48..57} \<union> {64..90} \<union> {94..123}
                \<union> {125, 126}"
    by (rule valid_filename_character_iff)
  have 2: "read_entry ar pos = Failed [CouldNotReadFilename] \<longleftrightarrow> fread ar pos FILENAME_SIZE = []"
    for ar pos
    by (simp add: read_entry_def Let_def split: option.splits)
  have 3: "read_entry ar pos = Failed [InvalidFilename] \<longleftrightarrow>
      fread ar pos FILENAME_SIZE \<noteq> [] \<and> fread ar pos FILENAME_SIZE \<noteq> [0] \<and>
      \<not> (\<exists>k<length (fread ar pos FILENAME_SIZE).
            0 < k \<and> fread ar pos FILENAME_SIZE ! k = 0 \<and>
            (\<forall>j<k. valid_filename_character (fread ar pos FILENAME_SIZE ! j)))"
    for ar pos
  proof (cases "fread ar pos FILENAME_SIZE = []")
    case True
    then show ?thesis by (simp add: read_entry_def Let_def)
  next
    case False
    let ?buf = "fread ar pos FILENAME_SIZE"
    have one: "(length ?buf = 1 \<and> ?buf ! 0 = 0) = (?buf = [0])"
      by (cases ?buf) auto
    have ex: "filename_loop (length ?buf - 1) 0 ?buf =
                (\<exists>k<length ?buf. 0 < k \<and> ?buf ! k = 0 \<and>
                   (\<forall>j<k. valid_filename_character (?buf ! j)))"
      using filename_loop_exact[OF False, of 0] by simp
    have "read_entry ar pos = Failed [InvalidFilename] \<longleftrightarrow>
            ?buf \<noteq> [0] \<and> \<not> filename_loop (length ?buf - 1) 0 ?buf"
      using False unfolding read_entry_def Let_def one
      by (simp split: option.splits)
    with False show ?thesis unfolding ex by simp
  qed
  have 4: "read_entry (pre @ n @ 0 # t) (length pre) \<noteq> Failed [CouldNotReadFilename] \<and>
      read_entry (pre @ n @ 0 # t) (length pre) \<noteq> Failed [InvalidFilename] \<and>
      read_entry (pre @ n @ 0 # t) (length pre) \<noteq> EndOfArchive"
    if n: "n \<noteq> [] \<and> length n \<le> 12 \<and> (\<forall>c\<in>set n. valid_filename_character c)"
  proof -
    let ?ar = "pre @ n @ 0 # t"
    from n have buf: "fread ?ar (length pre) FILENAME_SIZE = n @ 0 # take (12 - length n) t"
      by (simp add: fread_name)
    from n have k: "length n < length (n @ 0 # take (12 - length n) t)" "0 < length n"
      "(n @ 0 # take (12 - length n) t) ! length n = 0"
      "\<forall>j<length n. valid_filename_character ((n @ 0 # take (12 - length n) t) ! j)"
      by (simp_all add: nth_append)
    from n have ne: "n @ 0 # take (12 - length n) t \<noteq> [0]" by (cases n) simp_all
    have a: "read_entry ?ar (length pre) \<noteq> Failed [CouldNotReadFilename]"
      unfolding 2 buf by simp
    have b: "read_entry ?ar (length pre) \<noteq> Failed [InvalidFilename]"
      unfolding 3 buf using k by blast
    have c: "read_entry ?ar (length pre) \<noteq> EndOfArchive"
      using n by (cases n) (simp_all add: read_entry_end)
    from a b c show ?thesis by blast
  qed
  have 5: "read_entry (pre @ n @ x # t) (length pre) = Failed [InvalidFilename]"
    if n: "length n = 12 \<and> 0 \<notin> set n \<and> x \<noteq> 0"
  proof -
    let ?ar = "pre @ n @ x # t"
    from n have buf: "fread ?ar (length pre) FILENAME_SIZE = n @ [x]"
      by (simp add: fread_def FILENAME_SIZE_def)
    from n have nz: "\<forall>k<length (n @ [x]). (n @ [x]) ! k \<noteq> 0"
      by (auto simp: nth_append in_set_conv_nth)
    from n have ne: "n @ [x] \<noteq> []" "n @ [x] \<noteq> [0]" by auto
    show ?thesis unfolding 3 buf using nz ne by blast
  qed
  from 1 2 3 4 5 show ?thesis by blast
qed

lemma pack_loop_files:
  "\<forall>(n, d)\<in>set es. n \<noteq> [46] \<and> n \<noteq> [46, 46] \<Longrightarrow>
   pack_loop (map (\<lambda>(n, d). (n, Some d)) es) a lg =
     (0, a @ concat (map (\<lambda>(n, d). n @ 0 # file_size_bytes (length d)
                                   @ file_size_bytes (length d) @ 0 # d) es) @ [0],
      lg @ map (\<lambda>(n, d). Adding n) es)"
  by (induction es arbitrary: a lg) (auto simp: Let_def)

text \<open>A level-0 entry that has been read never lets \<^verbatim>\<open>unpack\<close> go on: when its file
  cannot be opened the freed path is printed, and when the file has been written the
  payload is freed twice.\<close>

lemma stored_entry_faults:
  assumes "read_entry ar pos = Entry fn usize level cd nx" and "sint level = 0"
  shows "unpack_loop can_open ar pos st
           = Some (Inl (if can_open fn then DoubleFree else UseAfterFree))"
  by (subst unpack_loop.simps)
     (simp add: unpack_entry_def assms extract_entry_def extract_stored_def Let_def)

text \<open>So it is with the first file of a folder that \<^verbatim>\<open>pack\<close> has written, for files of
  1 to \<open>2 ^ 32 - 1\<close> bytes whose names have 1 to 12 characters that the validator accepts:
  \<^verbatim>\<open>unpack\<close> reads the entry back as \<^verbatim>\<open>pack\<close> wrote it, writes the file and ends at
  the second \<^verbatim>\<open>free\<close> of the payload.\<close>

lemma pack_unpack_stored:
  assumes "\<forall>(n, d)\<in>set ((n0, d0) # es).
             n \<noteq> [] \<and> length n \<le> 12 \<and> (\<forall>c\<in>set n. valid_filename_character c) \<and>
             n \<noteq> [46] \<and> n \<noteq> [46, 46] \<and> d \<noteq> [] \<and> length d < 2 ^ 32"
  shows "\<exists>ar. pack (Some (map (\<lambda>(n, d). (n, Some d)) ((n0, d0) # es))) True
                 = (0, Some ar, map (\<lambda>(n, d). Adding n) ((n0, d0) # es)) \<and>
              unpack can_open (Some ar) st
                 = Some (Inl (if can_open n0 then DoubleFree else UseAfterFree))"
proof -
  let ?enc = "\<lambda>(n, d). n @ 0 # file_size_bytes (length d) @ file_size_bytes (length d) @ 0 # d"
  let ?rest = "concat (map ?enc es) @ [0]"
  let ?ar = "concat (map ?enc ((n0, d0) # es)) @ [0]"
  from assms have dots: "\<forall>(n, d)\<in>set ((n0, d0) # es). n \<noteq> [46] \<and> n \<noteq> [46, 46]" by auto
  have "pack (Some (map (\<lambda>(n, d). (n, Some d)) fs)) True
          = (0, Some (concat (map ?enc fs) @ [0]), map (\<lambda>(n, d). Adding n) fs)"
    if "\<forall>(n, d)\<in>set fs. n \<noteq> [46] \<and> n \<noteq> [46, 46]" for fs
    by (simp add: pack_def pack_loop_files[OF that])
  from this[OF dots]
  have p: "pack (Some (map (\<lambda>(n, d). (n, Some d)) ((n0, d0) # es))) True
             = (0, Some ?ar, map (\<lambda>(n, d). Adding n) ((n0, d0) # es))" .
  from assms have g: "n0 \<noteq> []" "length n0 \<le> 12" "\<forall>c\<in>set n0. valid_filename_character c"
    "d0 \<noteq> []" "length d0 < 2 ^ 32" by auto
  have ar: "?ar = [] @ n0 @ 0 # file_size_bytes (length d0) @ file_size_bytes (length d0)
                     @ 0 # d0 @ ?rest" by simp
  have "read_entry ?ar (length ([] :: byte list))
          = Entry n0 (length d0) 0 d0 (length ([] :: byte list) + length n0 + 1 + 9 + length d0)"
    unfolding ar using g by (rule read_entry_packed)
  then have "read_entry ?ar 0 = Entry n0 (length d0) 0 d0 (length n0 + 1 + 9 + length d0)"
    by simp
  then have "unpack_loop can_open ?ar 0 st
               = Some (Inl (if can_open n0 then DoubleFree else UseAfterFree))"
    by (rule stored_entry_faults) simp
  then have u: "unpack can_open (Some ?ar) st
               = Some (Inl (if can_open n0 then DoubleFree else UseAfterFree))"
    by (simp add: unpack_def)
  from p u show ?thesis by blast
qed

subsection \<open>A successful unpack\<close>

lemma extract_entry_Return:
  "extract_entry can_open fn usize level cd nx st = Some (Inr (Return r st')) \<Longrightarrow>
     r = EXIT_FAILURE"
  by (auto simp: extract_entry_def extract_stored_def extract_rle_def extract_window_def Let_def
           split: if_splits option.splits sum.splits prod.splits)

lemma unpack_entry_Return_0:
  assumes "unpack_entry can_open ar pos st = Some (Inr (Return 0 st'))"
  shows "read_entry ar pos = EndOfArchive \<and> st' = st"
proof (cases "read_entry ar pos")
  case EndOfArchive
  with assms show ?thesis by (simp add: unpack_entry_def)
next
  case (Failed ms)
  with assms show ?thesis by (simp add: unpack_entry_def EXIT_FAILURE_def)
next
  case (Entry fn usize level cd nx)
  with assms have "extract_entry can_open fn usize level cd nx (say (Extracting fn) st)
                     = Some (Inr (Return 0 st'))"
    by (simp add: unpack_entry_def)
  from extract_entry_Return[OF this] show ?thesis by (simp add: EXIT_FAILURE_def)
qed

text \<open>\<^verbatim>\<open>unpack\<close> returns 0 only through the \<^verbatim>\<open>break\<close> at the end-of-archive byte.\<close>

lemma unpack_loop_success_aux:
  assumes "unpack_loop can_open ar pos st = Some y"
  shows "\<forall>st'. y = Inr (0, st') \<longrightarrow> (\<exists>p. p + 1 = length ar \<and> ar ! p = 0)"
proof (rule unpack_loop.raw_induct
         [where P = "\<lambda>co a p s y. \<forall>st'. y = Inr (0, st') \<longrightarrow> (\<exists>q. q + 1 = length a \<and> a ! q = 0)",
          OF _ assms])
  fix ul :: "(byte list \<Rightarrow> bool) \<Rightarrow> byte list \<Rightarrow> nat \<Rightarrow> ustate \<Rightarrow> (fault + int \<times> ustate) option"
  fix co a p s y
  assume IH: "\<And>co a p s y. ul co a p s = Some y \<Longrightarrow>
                \<forall>st'. y = Inr (0, st') \<longrightarrow> (\<exists>q. q + 1 = length a \<and> a ! q = 0)"
    and eq: "(case unpack_entry co a p s of None \<Rightarrow> None
              | Some (Inl e) \<Rightarrow> Some (Inl e)
              | Some (Inr (Return status st')) \<Rightarrow> Some (Inr (status, st'))
              | Some (Inr (Next position' st')) \<Rightarrow> ul co a position' st') = Some y"
  show "\<forall>st'. y = Inr (0, st') \<longrightarrow> (\<exists>q. q + 1 = length a \<and> a ! q = 0)"
  proof (intro allI impI)
    fix st'
    assume y: "y = Inr (0, st')"
    show "\<exists>q. q + 1 = length a \<and> a ! q = 0"
    proof (cases "unpack_entry co a p s")
      case None
      with eq show ?thesis by simp
    next
      case (Some r)
      show ?thesis
      proof (cases r)
        case (Inl e)
        with Some eq y show ?thesis by simp
      next
        case (Inr stp)
        show ?thesis
        proof (cases stp)
          case (Return status st'')
          with Some Inr eq y have "status = 0" "st'' = st'" by simp_all
          with Some Inr Return have "read_entry a p = EndOfArchive"
            using unpack_entry_Return_0 by blast
          then show ?thesis by (auto simp: read_entry_end)
        next
          case (Next pos' st'')
          with Some Inr eq have "ul co a pos' st'' = Some y"
            by simp
          from IH[OF this] y show ?thesis by blast
        qed
      qed
    qed
  qed
qed

lemma unpack_success_last_byte:
  assumes "unpack can_open (Some ar) st = Some (Inr (0, st'))"
  shows "ar \<noteq> [] \<and> last ar = 0"
proof -
  from assms have "unpack_loop can_open ar 0 st = Some (Inr (0, st'))"
    by (simp add: unpack_def)
  from unpack_loop_success_aux[OF this] obtain p where p: "p + 1 = length ar" "ar ! p = 0"
    by blast
  then have ne: "ar \<noteq> []" by auto
  from p have "p = length ar - 1" by simp
  with p ne have "last ar = 0" by (simp add: last_conv_nth)
  with ne show ?thesis by simp
qed

section \<open>The specification against the code\<close>

subsection \<open>Packing and unpacking\<close>

text \<open>
  C1. Packing a folder and unpacking the archive gives back every file under its name with
  its bytes. This fails for a folder that holds an empty file \<open>A\<close>: \<^verbatim>\<open>pack\<close> writes an
  entry whose sizes are 0, and \<^verbatim>\<open>unpack\<close> takes the 0 that \<^verbatim>\<open>fread\<close> returns for an
  element of size 0 for a short read: it returns \<^verbatim>\<open>EXIT_FAILURE\<close> and writes no file.
  (A file that is not empty is read back and written, and \<^verbatim>\<open>unpack\<close> then ends at the
  second \<^verbatim>\<open>free\<close> of its payload: lemma \<open>pack_unpack_stored\<close>.)
\<close>

theorem pack_unpack_empty_file:
  "pack (Some [([0x41], Some [])]) True
     = (0, Some [0x41, 0, 0, 0, 0, 0, 0, 0, 0, 0, 0, 0], [Adding [0x41]]) \<and>
   unpack (\<lambda>_. True) (Some [0x41, 0, 0, 0, 0, 0, 0, 0, 0, 0, 0, 0]) \<lparr>files = [], log = []\<rparr>
     = Some (Inr (EXIT_FAILURE,
         \<lparr>files = [], log = [Extracting [0x41], CouldNotReadFileData]\<rparr>))"
  by code_simp

subsection \<open>The window codec\<close>

text \<open>
  C2. For an entry of a level above 1 that the decoder supports (\<^verbatim>\<open>offset_bits\<close> is at
  most 8), \<^verbatim>\<open>offset_bits\<close> is \<open>6 - level\<close>, \<^verbatim>\<open>run_length_bits\<close> is
  \<open>8 - offset_bits\<close>, \<^verbatim>\<open>max_run_length\<close> is \<open>(1 << run_length_bits) + 2\<close> and
  \<^verbatim>\<open>max_offset\<close> is \<open>(1 << (offset_bits + 8)) - 1\<close>. A back-reference takes two payload
  bytes; the two loops over their bits compute the offset and the run length of the
  specification: the offset from \<open>-1\<close> with all 8 bits of the first byte at the weights
  \<open>1 << 0\<close> to \<open>1 << 7\<close> and the low \<^verbatim>\<open>offset_bits\<close> bits of the second from
  \<open>1 << 8\<close> on, the run length from 2 with the other bits of the second byte, the weights
  starting again at bit \<^verbatim>\<open>offset_bits\<close>; these are \<open>b1 + 256 * (b2 mod 2^offset_bits) - 1\<close>
  and \<open>2 + b2 div 2^offset_bits\<close>.
\<close>

theorem back_reference_token_fields:
  assumes "1 < sint level" and "unat (offset_bits level) \<le> 8"
  shows "uint (offset_bits level) = 6 - sint level \<and>
         unat (run_length_bits (offset_bits level)) = 8 - unat (offset_bits level) \<and>
         max_run_length (run_length_bits (offset_bits level))
           = 2 ^ (8 - unat (offset_bits level)) + 2 \<and>
         max_offset (offset_bits level) = 2 ^ (unat (offset_bits level) + 8) - 1 \<and>
         token_fields (unat (offset_bits level)) b1 b2
           = (spec_offset (unat (offset_bits level)) b1 b2,
              spec_run_length (unat (offset_bits level)) b2) \<and>
         spec_offset (unat (offset_bits level)) b1 b2
           = uint b1 + 256 * (uint b2 mod 2 ^ unat (offset_bits level)) - 1 \<and>
         spec_run_length (unat (offset_bits level)) b2
           = 2 + unat b2 div 2 ^ unat (offset_bits level) \<and>
         (compressed_pointer s + 1 < length cd \<longrightarrow>
            back_reference (unat (offset_bits level)) mrl mo cd s =
              (let offset = spec_offset (unat (offset_bits level))
                              (cd ! compressed_pointer s) (cd ! (compressed_pointer s + 1));
                   run_length = spec_run_length (unat (offset_bits level))
                                  (cd ! (compressed_pointer s + 1));
                   s' = s\<lparr>compressed_pointer := compressed_pointer s + 2\<rparr>
               in if offset < 0 then Inr (Escape invalid_offset, s')
                  else if run_length > mrl then Inr (Escape invalid_run_length, s')
                  else window_run mo run_length offset s'))"
proof -
  let ?ob = "unat (offset_bits level)"
  note tf = token_fields_spec[OF assms(2)]
  have 1: "uint (offset_bits level) = 6 - sint level"
    using assms by (rule offset_bits_value)
  have 2: "unat (run_length_bits (offset_bits level)) = 8 - ?ob"
    using assms(2) by (rule run_length_bits_unat)
  have 3: "max_run_length (run_length_bits (offset_bits level)) = 2 ^ (8 - ?ob) + 2"
    by (simp only: max_run_length_eq 2)
  have 4: "max_offset (offset_bits level) = 2 ^ (?ob + 8) - 1"
    by (rule max_offset_eq)
  have 5: "spec_offset ?ob b1 b2 = uint b1 + 256 * (uint b2 mod 2 ^ ?ob) - 1"
    using assms(2) by (rule spec_offset_closed)
  have 6: "spec_run_length ?ob b2 = 2 + unat b2 div 2 ^ ?ob"
    using assms(2) by (rule spec_run_length_closed)
  have 7: "back_reference ?ob mrl mo cd s =
              (let offset = spec_offset ?ob
                              (cd ! compressed_pointer s) (cd ! (compressed_pointer s + 1));
                   run_length = spec_run_length ?ob (cd ! (compressed_pointer s + 1));
                   s' = s\<lparr>compressed_pointer := compressed_pointer s + 2\<rparr>
               in if offset < 0 then Inr (Escape invalid_offset, s')
                  else if run_length > mrl then Inr (Escape invalid_run_length, s')
                  else window_run mo run_length offset s')"
    if "compressed_pointer s + 1 < length cd"
    using that by (simp add: back_reference_def Let_def tf)
  from 1 2 3 4 5 6 7 tf show ?thesis by blast
qed

theorem back_reference_token_fields_witness:
  "1 < sint (2 :: byte) \<and> unat (offset_bits 2) = 4 \<and>
   max_run_length (run_length_bits (offset_bits 2)) = 18 \<and>
   max_offset (offset_bits 2) = 4095 \<and>
   token_fields 4 0x34 0x52 = (563, 7) \<and>
   spec_offset 4 0x34 0x52 = 563 \<and> spec_run_length 4 0x52 = 7 \<and>
   back_reference 4 18 4095 [0x07, 0x58, 0x59, 0x5A, 0x34, 0x52]
     \<lparr>compressed_pointer = 4, uncompressed_pointer = 3,
      uncompressed_data = [Some 0x58, Some 0x59, Some 0x5A, None],
      sliding_window = [Some 0x58, Some 0x59, Some 0x5A, None], sliding_offset = 3\<rparr>
     = Inr (Escape invalid_offset,
         \<lparr>compressed_pointer = 6, uncompressed_pointer = 3,
          uncompressed_data = [Some 0x58, Some 0x59, Some 0x5A, None],
          sliding_window = [Some 0x58, Some 0x59, Some 0x5A, None], sliding_offset = 3\<rparr>)"
proof -
  let ?s = "\<lparr>compressed_pointer = 4, uncompressed_pointer = 3,
      uncompressed_data = [Some 0x58, Some 0x59, Some 0x5A, None],
      sliding_window = [Some 0x58, Some 0x59, Some 0x5A, None], sliding_offset = 3\<rparr>"
  let ?cd = "[0x07, 0x58, 0x59, 0x5A, 0x34, 0x52] :: byte list"
  have h1: "1 < sint (2 :: byte)" by simp
  have ob: "unat (offset_bits 2) = 4" by (simp add: offset_bits_def)
  then have h2: "unat (offset_bits 2) \<le> 8" by simp
  have c: "compressed_pointer ?s + 1 < length ?cd" by simp
  note t = back_reference_token_fields [OF h1 h2, of "0x34" "0x52" ?s ?cd 18 4095,
      unfolded ob]
  have tf: "token_fields 4 0x34 0x52 = (563, 7)" by code_simp
  from t tf have so: "spec_offset 4 0x34 0x52 = 563" and sr: "spec_run_length 4 0x52 = 7"
    by simp_all
  from t have m: "max_run_length (run_length_bits (offset_bits 2)) = 18"
    and mo: "max_offset (offset_bits 2) = 4095" by simp_all
  from t c so sr have br: "back_reference 4 18 4095 ?cd ?s
     = Inr (Escape invalid_offset, ?s\<lparr>compressed_pointer := 6\<rparr>)"
    by (simp add: Let_def window_run_unfold)
  from h1 ob m mo tf so sr br show ?thesis by simp
qed



subsection \<open>Buffer bounds\<close>

text \<open>
  C4. Every read and write of the RLE and window decoders stays inside the payload and the
  output buffer. The decoders do not check these bounds: the level-1 payload \<open>[0x80]\<close>
  makes the decoder read the byte behind the payload, the level-1 payload \<open>[0x00, 0x41]\<close>
  with \<^verbatim>\<open>uncompressed_size = 0\<close> makes it write behind the output buffer, and the payload
  \<open>[0xFF]\<close> of a level-6 entry makes the window decoder read behind the payload. \<^verbatim>\<open>unpack\<close>
  reaches the first of these on an archive of one entry.
\<close>

theorem decoders_leave_buffers:
  "rle_decode [0x80] 3 = Some (Inl OutOfBounds) \<and>
   rle_decode [0x00, 0x41] 0 = Some (Inl OutOfBounds) \<and>
   window_decode (offset_bits 6) [0xFF] 8 = Some (Inl OutOfBounds) \<and>
   unpack (\<lambda>_. True) (Some [0x41, 0, 1, 0, 0, 0, 3, 0, 0, 0, 1, 0x80, 0])
     \<lparr>files = [], log = []\<rparr> = Some (Inl OutOfBounds)"
  by code_simp

subsection \<open>Literals\<close>

text \<open>
  A level-2 payload of the flag byte \<open>0x00\<close> and 8 more bytes does not decode to these
  bytes: a cleared flag bit marks a back-reference, the first two bytes are read as one,
  and it is refused because nothing has been written yet. The decode is left with no byte
  written.
\<close>

theorem flag_byte_zero_is_back_reference:
  "window_decode (offset_bits 2) [0x00, 1, 2, 3, 4, 5, 6, 7, 8] 8 =
     Some (Inr (Escape invalid_offset,
       \<lparr>compressed_pointer = 3, uncompressed_pointer = 0,
        uncompressed_data = [None, None, None, None, None, None, None, None],
        sliding_window = replicate 4095 None,
        sliding_offset = 0\<rparr>))"
  unfolding window_decode_def offset_bits_2 max_offset_4
  apply (subst window_loop.simps)
  apply (simp add: char_bit_eq back_reference_def token_fields_def first_byte_step_def
           second_byte_step_def Let_def replicate_8 window_run_unfold max_run_length_4)
  done

text \<open>
  C5. A level-2 entry whose payload is one flag byte and 8 literal bytes decodes to exactly
  those 8 bytes, and the sliding window then begins with the same 8 bytes. A set flag bit
  marks a literal, so the flag byte of 8 literals is \<open>0xFF\<close> (not \<open>0x00\<close>).
\<close>

theorem literal_only_path:
  "window_decode (offset_bits 2) [0xFF, b0, b1, b2, b3, b4, b5, b6, b7] 8 =
     Some (Inr (Continue,
       \<lparr>compressed_pointer = 9, uncompressed_pointer = 8,
        uncompressed_data = map Some [b0, b1, b2, b3, b4, b5, b6, b7],
        sliding_window = map Some [b0, b1, b2, b3, b4, b5, b6, b7] @ replicate 4087 None,
        sliding_offset = 8\<rparr>))"
  unfolding window_decode_def offset_bits_2 max_offset_4
  apply (simp add: window_4095)
  apply (subst window_loop.simps)
  apply (simp add: char_bit_eq literal_def next_offset_def Let_def replicate_8)
  apply (subst window_loop.simps)
  apply simp
  done

subsection \<open>Unsupported levels\<close>

text \<open>
  The level byte \<open>0x80\<close> makes \<^verbatim>\<open>6 - level\<close>, as an 8-bit unsigned value, exceed 8, and
  yet the entry is not skipped: the level is a \<^verbatim>\<open>char\<close> and negative, it is not above 1,
  and \<^verbatim>\<open>unpack\<close> returns \<^verbatim>\<open>EXIT_FAILURE\<close> in the last \<^verbatim>\<open>else\<close> branch.
\<close>

theorem negative_level_fails_unpack:
  "8 < unat (offset_bits 0x80) \<and>
   unpack (\<lambda>_. True) (Some [0x41, 0, 1, 0, 0, 0, 1, 0, 0, 0, 0x80, 0x77, 0])
     \<lparr>files = [], log = []\<rparr>
     = Some (Inr (EXIT_FAILURE, \<lparr>files = [], log = [Extracting [0x41]]\<rparr>))"
  by code_simp

text \<open>
  C6. An entry that has been read in full and whose level, as a \<^verbatim>\<open>char\<close>, is above 1
  and makes \<^verbatim>\<open>offset_bits = 6 - level\<close>, as an 8-bit unsigned value, exceed 8 (the levels
  7 to 127) is skipped with a warning, and \<^verbatim>\<open>unpack\<close> goes on with the next entry at the
  start of the payload plus \<^verbatim>\<open>compressed_size\<close>. A level byte from \<open>0x80\<close> on is
  negative and makes the whole of \<^verbatim>\<open>unpack\<close> fail.
\<close>

theorem unsupported_level_skipped:
  assumes "read_entry ar pos = Entry fn usize level cd next"
  shows "((1 < sint level \<and> 8 < unat (offset_bits level)) = (7 \<le> sint level)) \<and>
         (7 \<le> sint level \<longrightarrow>
            unpack_entry can_open ar pos st
              = Some (Inr (Next next (say (UnsupportedRunAndOffsetLength fn)
                                       (say (Extracting fn) st)))) \<and>
            unpack_loop can_open ar pos st
              = unpack_loop can_open ar next
                  (say (UnsupportedRunAndOffsetLength fn) (say (Extracting fn) st))) \<and>
         (sint level < 0 \<longrightarrow>
            unpack_entry can_open ar pos st
              = Some (Inr (Return EXIT_FAILURE (say (Extracting fn) st))) \<and>
            unpack_loop can_open ar pos st
              = Some (Inr (EXIT_FAILURE, say (Extracting fn) st))) \<and>
         next = pos + length fn + 10 + length cd"
proof (intro conjI impI)
  show "(1 < sint level \<and> 8 < unat (offset_bits level)) = (7 \<le> sint level)"
    by (rule unsupported_level_iff)
  show "next = pos + length fn + 10 + length cd"
    using read_entry_Entry[OF assms] by simp
next
  assume "7 \<le> sint level"
  then have l: "1 < sint level" "8 < unat (offset_bits level)"
    using unsupported_level_iff[of level] by simp_all
  then show e: "unpack_entry can_open ar pos st
              = Some (Inr (Next next (say (UnsupportedRunAndOffsetLength fn)
                                       (say (Extracting fn) st))))"
    by (simp add: unpack_entry_def assms extract_entry_def extract_window_def Let_def)
  then show "unpack_loop can_open ar pos st
              = unpack_loop can_open ar next
                  (say (UnsupportedRunAndOffsetLength fn) (say (Extracting fn) st))"
    by (rule unpack_loop_Next)
next
  assume "sint level < 0"
  then show e: "unpack_entry can_open ar pos st
              = Some (Inr (Return EXIT_FAILURE (say (Extracting fn) st)))"
    by (simp add: unpack_entry_def assms extract_entry_def)
  then show "unpack_loop can_open ar pos st
              = Some (Inr (EXIT_FAILURE, say (Extracting fn) st))"
    by (rule unpack_loop_Return)
qed

theorem unsupported_level_skipped_witness:
  "read_entry [0x41, 0, 1, 0, 0, 0, 0, 0, 0, 0, 7, 0,
               0x42, 0, 2, 0, 0, 0, 1, 0, 0, 0, 6, 0x01, 0x77, 0] 0
     = Entry [0x41] 0 7 [0] 12 \<and> 7 \<le> sint (7 :: byte) \<and>
   unpack (\<lambda>_. True)
     (Some [0x41, 0, 1, 0, 0, 0, 0, 0, 0, 0, 7, 0,
            0x42, 0, 2, 0, 0, 0, 1, 0, 0, 0, 6, 0x01, 0x77, 0]) \<lparr>files = [], log = []\<rparr>
     = Some (Inr (0,
         \<lparr>files = [([0x42], [Some 0x77])],
          log = [Extracting [0x41], UnsupportedRunAndOffsetLength [0x41],
                 Extracting [0x42]]\<rparr>)) \<and>
   read_entry [0x41, 0, 1, 0, 0, 0, 1, 0, 0, 0, 0x80, 0x77, 0] 0
     = Entry [0x41] 1 0x80 [0x77] 12 \<and> sint (0x80 :: byte) < 0 \<and>
   unpack_loop (\<lambda>_. True) [0x41, 0, 1, 0, 0, 0, 1, 0, 0, 0, 0x80, 0x77, 0] 0
     \<lparr>files = [], log = []\<rparr>
     = Some (Inr (EXIT_FAILURE, \<lparr>files = [], log = [Extracting [0x41]]\<rparr>))"
proof -
  let ?a = "[0x41, 0, 1, 0, 0, 0, 0, 0, 0, 0, 7, 0,
             0x42, 0, 2, 0, 0, 0, 1, 0, 0, 0, 6, 0x01, 0x77, 0] :: byte list"
  let ?b = "[0x41, 0, 1, 0, 0, 0, 1, 0, 0, 0, 0x80, 0x77, 0] :: byte list"
  let ?st = "\<lparr>files = [], log = []\<rparr>"
  have a1: "read_entry ?a 0 = Entry [0x41] 0 7 [0] 12" by code_simp
  have a2: "7 \<le> sint (7 :: byte)" by simp
  have b1: "read_entry ?b 0 = Entry [0x41] 1 0x80 [0x77] 12" by code_simp
  have b2: "sint (0x80 :: byte) < 0" by simp
  from unsupported_level_skipped [OF a1, of "\<lambda>_. True" ?st] a2
  have "unpack_loop (\<lambda>_. True) ?a 0 ?st
          = unpack_loop (\<lambda>_. True) ?a 12
              (say (UnsupportedRunAndOffsetLength [0x41]) (say (Extracting [0x41]) ?st))"
    by blast
  also have "\<dots> = Some (Inr (0,
         \<lparr>files = [([0x42], [Some 0x77])],
          log = [Extracting [0x41], UnsupportedRunAndOffsetLength [0x41],
                 Extracting [0x42]]\<rparr>))"
    by code_simp
  finally have ua: "unpack (\<lambda>_. True) (Some ?a) ?st = Some (Inr (0,
         \<lparr>files = [([0x42], [Some 0x77])],
          log = [Extracting [0x41], UnsupportedRunAndOffsetLength [0x41],
                 Extracting [0x42]]\<rparr>))"
    by (simp add: unpack_def)
  from unsupported_level_skipped [OF b1, of "\<lambda>_. True" ?st] b2
  have "unpack_loop (\<lambda>_. True) ?b 0 ?st
          = Some (Inr (EXIT_FAILURE, say (Extracting [0x41]) ?st))"
    by blast
  then have ub: "unpack_loop (\<lambda>_. True) ?b 0 ?st
          = Some (Inr (EXIT_FAILURE, \<lparr>files = [], log = [Extracting [0x41]]\<rparr>))"
    by (simp add: say_def)
  from a1 a2 ua b1 b2 ub show ?thesis by blast
qed

subsection \<open>The RLE codec\<close>

text \<open>
  C7. The level-1 decoder goes once through the payload, group after group: a flag byte
  \<open>f\<close> above 127 is followed by one byte that is written \<open>f - 125\<close> times (3 to 130
  times), any other flag byte by \<open>f + 1\<close> bytes that are copied (1 to 128 bytes), until
  the payload is used up. The decoder returns with the cursor at the end of the payload
  and the bytes of \<open>rle_spec\<close> at the start of the output buffer, when the groups are
  complete and the buffer of \<^verbatim>\<open>uncompressed_size\<close> bytes holds them, and leaves a buffer
  otherwise. The payload \<open>[0x02, 'A', 'B', 'C', 0x80, 'X']\<close> gives \<open>ABCXXX\<close>.
\<close>

theorem rle_codec_semantics:
  "rle_decode cd n =
     Some (case rle_spec cd of
             None \<Rightarrow> Inl OutOfBounds
           | Some out \<Rightarrow>
               if length out \<le> n
               then Inr (length cd, length out, map Some out @ replicate (n - length out) None)
               else Inl OutOfBounds) \<and>
   (unat (f :: byte) > 127 \<longrightarrow>
      unat (f - 125) = unat f - 125 \<and> 3 \<le> unat f - 125 \<and> unat f - 125 \<le> 130) \<and>
   (\<not> unat f > 127 \<longrightarrow> 1 \<le> unat f + 1 \<and> unat f + 1 \<le> 128) \<and>
   rle_decode [0x02, 0x41, 0x42, 0x43, 0x80, 0x58] 6
     = Some (Inr (6, 6, map Some [0x41, 0x42, 0x43, 0x58, 0x58, 0x58]))"
proof (intro conjI impI)
  show "rle_decode cd n =
     Some (case rle_spec cd of
             None \<Rightarrow> Inl OutOfBounds
           | Some out \<Rightarrow>
               if length out \<le> n
               then Inr (length cd, length out, map Some out @ replicate (n - length out) None)
               else Inl OutOfBounds)"
    unfolding rle_decode_def
    by (subst rle_loop_spec) (auto split: option.splits)
  have b: "unat f < 256" using unsigned_less[of f, where 'a = nat] by simp
  show "unat (f - 125) = unat f - 125" if "127 < unat f"
    using that by (simp add: unat_sub word_le_nat_alt)
  show "3 \<le> unat f - 125" if "127 < unat f" using that by simp
  show "unat f - 125 \<le> 130" if "127 < unat f" using b by simp
  show "1 \<le> unat f + 1" by simp
  show "unat f + 1 \<le> 128" if "\<not> 127 < unat f" using that by simp
  show "rle_decode [0x02, 0x41, 0x42, 0x43, 0x80, 0x58] 6
     = Some (Inr (6, 6, map Some [0x41, 0x42, 0x43, 0x58, 0x58, 0x58]))"
    by code_simp
qed

theorem rle_codec_semantics_witness:
  "127 < unat (0x80 :: byte) \<and>
   unat (0x80 - 125 :: byte) = unat (0x80 :: byte) - 125 \<and>
   3 \<le> unat (0x80 :: byte) - 125 \<and> unat (0x80 :: byte) - 125 \<le> 130 \<and>
   \<not> 127 < unat (0x02 :: byte) \<and>
   1 \<le> unat (0x02 :: byte) + 1 \<and> unat (0x02 :: byte) + 1 \<le> 128 \<and>
   rle_spec [0x02, 0x41, 0x42, 0x43, 0x80, 0x58] = Some [0x41, 0x42, 0x43, 0x58, 0x58, 0x58] \<and>
   rle_decode [0x02, 0x41, 0x42, 0x43, 0x80, 0x58] 6
     = Some (Inr (6, 6, map Some [0x41, 0x42, 0x43, 0x58, 0x58, 0x58]))"
proof -
  have s: "rle_spec [0x02, 0x41, 0x42, 0x43, 0x80, 0x58]
             = Some [0x41, 0x42, 0x43, 0x58, 0x58, 0x58]"
    by code_simp
  have f: "127 < unat (0x80 :: byte)" by simp
  have l: "\<not> 127 < unat (0x02 :: byte)" by simp
  from rle_codec_semantics [of "[0x02, 0x41, 0x42, 0x43, 0x80, 0x58]" 6 "0x80"] f
  have 1: "unat (0x80 - 125 :: byte) = unat (0x80 :: byte) - 125 \<and>
           3 \<le> unat (0x80 :: byte) - 125 \<and> unat (0x80 :: byte) - 125 \<le> 130"
    by blast
  from rle_codec_semantics [of "[0x02, 0x41, 0x42, 0x43, 0x80, 0x58]" 6 "0x02"] l
  have 2: "1 \<le> unat (0x02 :: byte) + 1 \<and> unat (0x02 :: byte) + 1 \<le> 128 \<and>
     rle_decode [0x02, 0x41, 0x42, 0x43, 0x80, 0x58] 6
     = Some (Inr (6, 6, map Some [0x41, 0x42, 0x43, 0x58, 0x58, 0x58]))"
    by blast
  from f 1 l s 2 show ?thesis by blast
qed

subsection \<open>Filenames\<close>

text \<open>
  C8. The validator fails exactly when no byte was read, when a byte before the terminator
  is not a legal character, or when the bytes read hold no terminator; a name of 1 to 12
  legal characters followed by the terminator is accepted, where the legal characters are
  \<open>!\<close>, \<open>#\<close> to \<open>)\<close>, \<open>-\<close>, \<open>.\<close>, \<open>0\<close> to \<open>9\<close>, \<open>@\<close> to \<open>Z\<close>, \<open>^\<close> to \<open>{\<close>, \<open>}\<close>
  and \<open>~\<close>. The validator, which is to accept the characters of an MS-DOS filename,
  tests \<^verbatim>\<open>character >= 36 && character <= 41\<close>: it leaves out \<open>#\<close>, code 35, and
  \<^verbatim>\<open>unpack\<close> refuses the archive of the one file \<open>#\<close> as an invalid filename. (With
  the codes 36 to 41 in the place of \<open>#\<close> to \<open>)\<close> the validator is as claimed: lemmas
  \<open>valid_filename_character_iff\<close> and \<open>filename_validator_exact\<close>.)
\<close>

theorem hash_filename_refused:
  "\<not> valid_filename_character 0x23 \<and>
   read_entry [0x23, 0, 1, 0, 0, 0, 1, 0, 0, 0, 0, 0x77, 0] 0 = Failed [InvalidFilename] \<and>
   unpack (\<lambda>_. True) (Some [0x23, 0, 1, 0, 0, 0, 1, 0, 0, 0, 0, 0x77, 0])
     \<lparr>files = [], log = []\<rparr>
     = Some (Inr (EXIT_FAILURE, \<lparr>files = [], log = [InvalidFilename]\<rparr>))"
  by code_simp

subsection \<open>The end of the archive\<close>

text \<open>
  C9. The end-of-archive byte is recognised exactly when the read of the filename returns
  one byte and that byte is zero, that is when the zero byte at the position of a filename
  is the last byte of the file; \<^verbatim>\<open>unpack\<close> then returns 0. A zero byte at the position of
  a filename that is followed by more bytes is checked as a filename and refused:
  \<^verbatim>\<open>unpack\<close> returns \<^verbatim>\<open>EXIT_FAILURE\<close> after the message of an invalid filename. So
  \<^verbatim>\<open>unpack\<close> returns 0 only for an archive whose last byte is zero.
\<close>

theorem end_of_archive_only_as_last_byte:
  "(read_entry ar pos = EndOfArchive \<longleftrightarrow> pos + 1 = length ar \<and> ar ! pos = 0) \<and>
   (pos + 1 = length ar \<and> ar ! pos = 0 \<longrightarrow>
      unpack_loop can_open ar pos st = Some (Inr (0, st))) \<and>
   (pos + 1 < length ar \<and> ar ! pos = 0 \<longrightarrow>
      unpack_loop can_open ar pos st = Some (Inr (EXIT_FAILURE, say InvalidFilename st))) \<and>
   (unpack can_open (Some ar) st = Some (Inr (0, st')) \<longrightarrow> ar \<noteq> [] \<and> last ar = 0)"
proof (intro conjI impI)
  show "(read_entry ar pos = EndOfArchive) = (pos + 1 = length ar \<and> ar ! pos = 0)"
    by (rule read_entry_end)
next
  assume "pos + 1 = length ar \<and> ar ! pos = 0"
  then have "read_entry ar pos = EndOfArchive" by (simp add: read_entry_end)
  then show "unpack_loop can_open ar pos st = Some (Inr (0, st))"
    by (subst unpack_loop.simps) (simp add: unpack_entry_def)
next
  assume "pos + 1 < length ar \<and> ar ! pos = 0"
  then have "read_entry ar pos = Failed [InvalidFilename]"
    by (simp add: read_entry_zero_then_data)
  then show "unpack_loop can_open ar pos st = Some (Inr (EXIT_FAILURE, say InvalidFilename st))"
    by (subst unpack_loop.simps) (simp add: unpack_entry_def say_def)
next
  assume u: "unpack can_open (Some ar) st = Some (Inr (0, st'))"
  then show "ar \<noteq> []" using unpack_success_last_byte by blast
  from u show "last ar = 0" using unpack_success_last_byte by blast
qed

theorem end_of_archive_only_as_last_byte_witness:
  "unpack_loop (\<lambda>_. True) [0] 0 \<lparr>files = [], log = []\<rparr>
     = Some (Inr (0, \<lparr>files = [], log = []\<rparr>)) \<and>
   unpack_loop (\<lambda>_. True) [0, 0] 0 \<lparr>files = [], log = []\<rparr>
     = Some (Inr (EXIT_FAILURE, \<lparr>files = [], log = [InvalidFilename]\<rparr>)) \<and>
   unpack (\<lambda>_. True) (Some [0]) \<lparr>files = [], log = []\<rparr>
     = Some (Inr (0, \<lparr>files = [], log = []\<rparr>)) \<and>
   [0 :: byte] \<noteq> [] \<and> last [0 :: byte] = 0"
proof -
  let ?st = "\<lparr>files = [], log = []\<rparr>"
  note a = end_of_archive_only_as_last_byte [of "[0]" 0 "\<lambda>_. True" ?st ?st]
  note b = end_of_archive_only_as_last_byte [of "[0, 0]" 0 "\<lambda>_. True" ?st ?st]
  from a have 1: "unpack_loop (\<lambda>_. True) [0] 0 ?st = Some (Inr (0, ?st))" by simp
  from b have 2: "unpack_loop (\<lambda>_. True) [0, 0] 0 ?st
                    = Some (Inr (EXIT_FAILURE, \<lparr>files = [], log = [InvalidFilename]\<rparr>))"
    by (simp add: say_def)
  from 1 have 3: "unpack (\<lambda>_. True) (Some [0]) ?st = Some (Inr (0, ?st))"
    by (simp add: unpack_def)
  from a 3 have 4: "[0 :: byte] \<noteq> [] \<and> last [0 :: byte] = 0" by blast
  from 1 2 3 4 show ?thesis by blast
qed

subsection \<open>Termination of the decode loops\<close>

text \<open>
  C10. Both decode loops terminate for every payload, because an iteration moves the
  cursor forward until it reaches or passes \<^verbatim>\<open>compressed_size\<close>. The cursor of the
  level-1 loop is an \<^verbatim>\<open>unsigned int\<close>, and the loop reads and moves on behind the payload
  without a check, so the cursor can pass \<^verbatim>\<open>compressed_size\<close> and wrap. For an entry
  whose \<^verbatim>\<open>compressed_size\<close> is \<open>2 ^ 32 - 1\<close> and whose payload holds zero bytes only,
  each iteration takes a flag byte 0 and one literal: the cursor goes through the even
  numbers, at \<open>2 ^ 32 - 2\<close> it reads the literal behind the payload and comes back to 0,
  and it is never at or above \<^verbatim>\<open>compressed_size\<close>. The loop does not return. (For a
  \<^verbatim>\<open>compressed_size\<close> of at most \<open>2 ^ 32 - 130\<close> it returns: lemma
  \<open>rle_cursor_loop_returns\<close>.)
\<close>

theorem rle_loop_runs_forever:
  "rle_cursor_loop (\<lambda>_. 0) 0xFFFFFFFF 0 = None"
proof (cases "rle_cursor_loop (\<lambda>_. 0) 0xFFFFFFFF 0")
  case None
  then show ?thesis .
next
  case (Some y)
  from rle_cursor_loop_parity[OF this] show ?thesis by simp
qed

end
